theory Spec2Isabelle
  imports Main "HOL-Library.Multiset"
begin

section \<open>Cards\<close>

text \<open>
  The types \<open>Suit\<close>, \<open>Rank\<close> and \<open>Card\<close> are imported by the source from the shared type
  package. The two object literals of \<open>rankHand\<close> are typed \<open>Record<Suit, number>\<close> and
  \<open>Record<Rank, number>\<close>, so their keys are exactly the members of the two unions:
  four suits, and the thirteen strings '2' to '14'.
\<close>

datatype suit = clubs | diamonds | hearts | spades

datatype rank = R2 | R3 | R4 | R5 | R6 | R7 | R8 | R9 | R10 | R11 | R12 | R13 | R14

record card =
  rank :: rank
  suit :: suit

text \<open>The string a rank is in the source (a key of the \<open>ranks\<close> object).\<close>

fun rank_key :: "rank \<Rightarrow> string" where
  "rank_key R2 = ''2''"
| "rank_key R3 = ''3''"
| "rank_key R4 = ''4''"
| "rank_key R5 = ''5''"
| "rank_key R6 = ''6''"
| "rank_key R7 = ''7''"
| "rank_key R8 = ''8''"
| "rank_key R9 = ''9''"
| "rank_key R10 = ''10''"
| "rank_key R11 = ''11''"
| "rank_key R12 = ''12''"
| "rank_key R13 = ''13''"
| "rank_key R14 = ''14''"

text \<open>
  \<open>Object.keys(ranks)\<close>: all thirteen keys are integer-like, so JavaScript enumerates
  them in ascending numeric order whatever the order of the literal.
  \<open>Object.values(suits)\<close> follows the order of the literal.
\<close>

definition rank_keys :: "rank list" where
  "rank_keys = [R2, R3, R4, R5, R6, R7, R8, R9, R10, R11, R12, R13, R14]"

definition suit_keys :: "suit list" where
  "suit_keys = [clubs, diamonds, hearts, spades]"

section \<open>JavaScript numbers\<close>

text \<open>
  Every number the evaluator computes is an integer far below \<open>2^53\<close>, an infinity
  (\<open>Math.max()\<close> of no argument is \<open>-Infinity\<close>) or \<open>NaN\<close> (\<open>parseInt(undefined)\<close>), so
  a double is modelled exactly by an integer or one of three special values.
\<close>

datatype jsnum = Fin int | PosInfinity | NegInfinity | NaN

fun js_add :: "jsnum \<Rightarrow> jsnum \<Rightarrow> jsnum" where
  "js_add (Fin a) (Fin b) = Fin (a + b)"
| "js_add NaN _ = NaN"
| "js_add _ NaN = NaN"
| "js_add PosInfinity NegInfinity = NaN"
| "js_add NegInfinity PosInfinity = NaN"
| "js_add PosInfinity _ = PosInfinity"
| "js_add _ PosInfinity = PosInfinity"
| "js_add NegInfinity _ = NegInfinity"
| "js_add _ NegInfinity = NegInfinity"

fun js_neg :: "jsnum \<Rightarrow> jsnum" where
  "js_neg (Fin a) = Fin (- a)"
| "js_neg PosInfinity = NegInfinity"
| "js_neg NegInfinity = PosInfinity"
| "js_neg NaN = NaN"

definition js_sub :: "jsnum \<Rightarrow> jsnum \<Rightarrow> jsnum" where
  "js_sub a b = js_add a (js_neg b)"

text \<open>Multiplication by a finite literal, as in \<open>parseInt(k) * 4\<close>.\<close>

fun js_times :: "jsnum \<Rightarrow> int \<Rightarrow> jsnum" where
  "js_times (Fin a) n = Fin (a * n)"
| "js_times NaN n = NaN"
| "js_times PosInfinity n = (if n = 0 then NaN else if 0 < n then PosInfinity else NegInfinity)"
| "js_times NegInfinity n = (if n = 0 then NaN else if 0 < n then NegInfinity else PosInfinity)"

text \<open>The comparisons \<open><\<close> and \<open><=\<close> of JavaScript: false as soon as an operand is \<open>NaN\<close>.\<close>

fun js_less :: "jsnum \<Rightarrow> jsnum \<Rightarrow> bool" where
  "js_less NaN _ = False"
| "js_less _ NaN = False"
| "js_less (Fin a) (Fin b) = (a < b)"
| "js_less _ NegInfinity = False"
| "js_less NegInfinity _ = True"
| "js_less PosInfinity _ = False"
| "js_less _ PosInfinity = True"

fun js_less_eq :: "jsnum \<Rightarrow> jsnum \<Rightarrow> bool" where
  "js_less_eq NaN _ = False"
| "js_less_eq _ NaN = False"
| "js_less_eq a b = (a = b \<or> js_less a b)"

text \<open>\<open>Math.max(...xs)\<close>: \<open>-Infinity\<close> for no argument, \<open>NaN\<close> if an argument is.\<close>

fun js_max2 :: "jsnum \<Rightarrow> jsnum \<Rightarrow> jsnum" where
  "js_max2 NaN _ = NaN"
| "js_max2 _ NaN = NaN"
| "js_max2 a b = (if js_less a b then b else a)"

definition Math_max :: "jsnum list \<Rightarrow> jsnum" where
  "Math_max xs = foldl js_max2 NegInfinity xs"

text \<open>
  \<open>parseInt\<close> and \<open>Number\<close> on the strings the evaluator gives them: strings of decimal
  digits without sign or blanks. \<open>parseInt\<close> reads the longest prefix of digits and is
  \<open>NaN\<close> when there is none; \<open>parseInt(undefined)\<close> is \<open>NaN\<close>. \<open>Number\<close> is \<open>NaN\<close>
  unless the whole string is digits, and \<open>0\<close> on the empty string.
\<close>

definition digit_val :: "char \<Rightarrow> int option" where
  "digit_val = map_of (zip ''0123456789'' [0, 1, 2, 3, 4, 5, 6, 7, 8, 9])"

fun digits_val :: "int \<Rightarrow> string \<Rightarrow> int" where
  "digits_val acc [] = acc"
| "digits_val acc (c # cs) =
    (case digit_val c of None \<Rightarrow> acc | Some d \<Rightarrow> digits_val (10 * acc + d) cs)"

definition parseInt :: "string option \<Rightarrow> jsnum" where
  "parseInt s =
    (case s of
       None \<Rightarrow> NaN
     | Some [] \<Rightarrow> NaN
     | Some (c # cs) \<Rightarrow> (if digit_val c = None then NaN else Fin (digits_val 0 (c # cs))))"

definition Number_js :: "string \<Rightarrow> jsnum" where
  "Number_js s = (if list_all (\<lambda>c. digit_val c \<noteq> None) s then Fin (digits_val 0 s) else NaN)"

section \<open>Array helpers\<close>

text \<open>\<open>findIndex\<close>: the index of the first element that satisfies the test, or \<open>-1\<close>.\<close>

fun findIndex :: "('a \<Rightarrow> bool) \<Rightarrow> 'a list \<Rightarrow> int" where
  "findIndex P [] = - 1"
| "findIndex P (x # xs) =
    (if P x then 0 else (let i = findIndex P xs in if i < 0 then - 1 else i + 1))"

text \<open>\<open>slice(start, end)\<close>: a negative bound counts from the end; both are clamped.\<close>

definition slice :: "'a list \<Rightarrow> int \<Rightarrow> int \<Rightarrow> 'a list" where
  "slice xs start end =
    (let len = int (length xs);
         k = (if start < 0 then max (len + start) 0 else min start len);
         final = (if end < 0 then max (len + end) 0 else min end len)
     in take (nat (final - k)) (drop (nat k) xs))"

text \<open>\<open>xs[i]\<close>, which is \<open>undefined\<close> out of range.\<close>

definition at_index :: "'a list \<Rightarrow> nat \<Rightarrow> 'a option" where
  "at_index xs i = (if i < length xs then Some (xs ! i) else None)"

text \<open>
  \<open>reduce((a, b) => a + b)\<close> without initial value, on strings: the concatenation, and a
  \<open>TypeError\<close> (here \<open>None\<close>) on the empty array.
\<close>

definition reduce_concat :: "string list \<Rightarrow> string option" where
  "reduce_concat xs = (case xs of [] \<Rightarrow> None | x # rest \<Rightarrow> Some (foldl (@) x rest))"

text \<open>
  \<open>sort(cmp)\<close>: the sort of ECMAScript 2019 is stable (the continuous integration of the
  repository pins Node 14.18, whose sort is), and the comparator orders by a key, so
  the result is the one of a stable insertion sort: \<open>x\<close> goes behind \<open>y\<close> exactly when
  \<open>cmp(x, y) > 0\<close> (a \<open>NaN\<close> result counts as \<open>0\<close>).
\<close>

fun sort_insert :: "('a \<Rightarrow> 'a \<Rightarrow> jsnum) \<Rightarrow> 'a \<Rightarrow> 'a list \<Rightarrow> 'a list" where
  "sort_insert cmp x [] = [x]"
| "sort_insert cmp x (y # ys) =
    (if js_less (Fin 0) (cmp x y) then y # sort_insert cmp x ys else x # y # ys)"

definition js_sort :: "('a \<Rightarrow> 'a \<Rightarrow> jsnum) \<Rightarrow> 'a list \<Rightarrow> 'a list" where
  "js_sort cmp xs = foldr (sort_insert cmp) xs []"

section \<open>The evaluator\<close>

datatype HandCategory =
  royal_flush | straight_flush | four_of_a_kind | full_house | flush | straight
  | three_of_a_kind | two_pairs | pair | high_card | win_via_fold

text \<open>
  \<open>PlayerWithHand\<close>: only the field \<open>hand\<close> is read; whatever else the object holds is
  \<open>player_info\<close>. The hand is \<open>null\<close> (\<open>None\<close>) or an array of cards.
\<close>

record 'p PlayerWithHand =
  player_info :: 'p
  hand :: "card list option"

text \<open>
  \<open>RankHandReponse\<close>. The source starts the category at the empty string (cast to
  \<open>HandCategory\<close>); that placeholder is \<open>None\<close>.
\<close>

record 'p RankHandReponse =
  player :: "'p PlayerWithHand"
  category :: "HandCategory option"
  score :: jsnum

datatype error = InternalServerErrorException string | TypeError

text \<open>The two tallies: \<open>suits\<close> and \<open>ranks\<close> after the \<open>forEach\<close> over the hand.\<close>

definition tally :: "card list \<Rightarrow> (suit \<Rightarrow> nat) \<times> (rank \<Rightarrow> nat)" where
  "tally h =
    fold (\<lambda>c (suits, ranks). (suits(suit c := suits (suit c) + 1), ranks(rank c := ranks (rank c) + 1)))
      h (\<lambda>_. 0, \<lambda>_. 0)"

definition TEN_CARD_POSITION :: int where
  "TEN_CARD_POSITION = 8"

definition firstCardIndex :: "(rank \<Rightarrow> nat) \<Rightarrow> int" where
  "firstCardIndex ranks = findIndex (\<lambda>index. index = 1) (map ranks rank_keys)"

text \<open>The literal \<open>categoryMap\<close>, then its two assignments.\<close>

definition categoryMap0 :: "(suit \<Rightarrow> nat) \<Rightarrow> (rank \<Rightarrow> nat) \<Rightarrow> HandCategory \<Rightarrow> bool" where
  "categoryMap0 suits ranks key =
    (case key of
       royal_flush \<Rightarrow> False
     | straight_flush \<Rightarrow> False
     | four_of_a_kind \<Rightarrow> list_ex (\<lambda>count. count = 4) (map ranks rank_keys)
     | full_house \<Rightarrow> length (filter (\<lambda>count. count \<noteq> 0) (map ranks rank_keys)) = 2
     | flush \<Rightarrow> list_ex (\<lambda>count. count = 5) (map suits suit_keys)
     | straight \<Rightarrow>
         length (filter (\<lambda>count. count = 1)
           (slice (map ranks rank_keys) (firstCardIndex ranks) (firstCardIndex ranks + 5))) = 5
     | three_of_a_kind \<Rightarrow> list_ex (\<lambda>count. count = 3) (map ranks rank_keys)
     | two_pairs \<Rightarrow> length (filter (\<lambda>count. count = 2) (map ranks rank_keys)) = 2
     | pair \<Rightarrow> length (filter (\<lambda>count. count = 2) (map ranks rank_keys)) = 1
     | high_card \<Rightarrow> True
     | win_via_fold \<Rightarrow> False)"

definition categoryMap :: "(suit \<Rightarrow> nat) \<Rightarrow> (rank \<Rightarrow> nat) \<Rightarrow> HandCategory \<Rightarrow> bool" where
  "categoryMap suits ranks =
    (let m0 = categoryMap0 suits ranks;
         m1 = m0(straight_flush := (m0 flush \<and> m0 straight));
         m2 = m1(royal_flush := (m1 straight_flush \<and> firstCardIndex ranks = TEN_CARD_POSITION))
     in m2)"

text \<open>\<open>Object.keys(categoryMap)\<close>: the keys in the order of the literal.\<close>

definition category_keys :: "HandCategory list" where
  "category_keys =
    [royal_flush, straight_flush, four_of_a_kind, full_house, flush, straight,
     three_of_a_kind, two_pairs, pair, high_card, win_via_fold]"

text \<open>
  The \<open>every\<close> loop: each visited key overwrites \<open>score\<close> and \<open>category\<close>, and the loop
  stops at the first key whose flag is true.
\<close>

fun every_key ::
  "(HandCategory \<Rightarrow> bool) \<Rightarrow> HandCategory list \<Rightarrow> int \<Rightarrow> jsnum \<times> HandCategory option
    \<Rightarrow> jsnum \<times> HandCategory option" where
  "every_key m [] index st = st"
| "every_key m (key # keys) index st =
    (let st' = (Fin (1000 - index * 100), Some key)
     in if \<not> m key then every_key m keys (index + 1) st' else st')"

definition select_category :: "(HandCategory \<Rightarrow> bool) \<Rightarrow> jsnum \<times> HandCategory option" where
  "select_category m = every_key m category_keys 0 (Fin 0, None)"

text \<open>The keys of \<open>ranks\<close> whose count is \<open>n\<close>.\<close>

definition keys_with :: "(rank \<Rightarrow> nat) \<Rightarrow> nat \<Rightarrow> rank list" where
  "keys_with ranks n = filter (\<lambda>key. ranks key = n) rank_keys"

text \<open>The first \<open>if\<close> chain: the values of the cards. The \<open>reduce\<close> can throw.\<close>

definition add_card_values ::
  "card list \<Rightarrow> (rank \<Rightarrow> nat) \<Rightarrow> HandCategory option \<Rightarrow> jsnum \<Rightarrow> error + jsnum" where
  "add_card_values h ranks cat score0 =
    (if cat = Some royal_flush \<or> cat = Some straight_flush \<or> cat = Some full_house
        \<or> cat = Some flush \<or> cat = Some straight
     then Inr (fold (\<lambda>c s. js_add s (parseInt (Some (rank_key (rank c))))) h score0)
     else if cat = Some four_of_a_kind
     then Inr (js_add score0
            (js_times (parseInt (map_option rank_key (at_index (keys_with ranks 4) 0))) 4))
     else if cat = Some three_of_a_kind
     then Inr (js_add score0
            (js_times (parseInt (map_option rank_key (at_index (keys_with ranks 3) 0))) 3))
     else if cat = Some two_pairs
     then (let keys = keys_with ranks 2
           in Inr (js_add score0
                (js_add (js_times (parseInt (map_option rank_key (at_index keys 0))) 2)
                        (js_times (parseInt (map_option rank_key (at_index keys 1))) 2))))
     else if cat = Some pair
     then (case reduce_concat (map rank_key (keys_with ranks 2)) of
             None \<Rightarrow> Inl TypeError
           | Some s \<Rightarrow> Inr (js_add score0 (js_times (parseInt (Some s)) 2)))
     else Inr score0)"

text \<open>The second \<open>if\<close>: the kicker.\<close>

definition add_kicker :: "(rank \<Rightarrow> nat) \<Rightarrow> HandCategory option \<Rightarrow> jsnum \<Rightarrow> jsnum" where
  "add_kicker ranks cat score1 =
    (if cat = Some two_pairs \<or> cat = Some pair \<or> cat = Some high_card
     then js_add score1 (Math_max (map (\<lambda>key. Number_js (rank_key key)) (keys_with ranks 1)))
     else score1)"

definition rankHand :: "'p PlayerWithHand \<Rightarrow> error + 'p RankHandReponse" where
  "rankHand p =
    (case hand p of
       None \<Rightarrow> Inl (InternalServerErrorException ''Attempting to rank a non-existant hand!'')
     | Some h \<Rightarrow>
        (let (suits, ranks) = tally h;
             (score0, cat) = select_category (categoryMap suits ranks)
         in case add_card_values h ranks cat score0 of
              Inl e \<Rightarrow> Inl e
            | Inr score1 \<Rightarrow>
                Inr \<lparr>player = p, category = cat, score = add_kicker ranks cat score1\<rparr>))"

text \<open>\<open>players.map(rankHand)\<close>: the first exception ends the map.\<close>

fun map_rankHand :: "'p PlayerWithHand list \<Rightarrow> error + 'p RankHandReponse list" where
  "map_rankHand [] = Inr []"
| "map_rankHand (p # ps) =
    (case rankHand p of
       Inl e \<Rightarrow> Inl e
     | Inr r \<Rightarrow> (case map_rankHand ps of Inl e \<Rightarrow> Inl e | Inr rs \<Rightarrow> Inr (r # rs)))"

definition compareHands :: "'p PlayerWithHand list \<Rightarrow> error + 'p RankHandReponse list" where
  "compareHands players =
    (if length players = 1
     then Inr [\<lparr>player = players ! 0, category = Some win_via_fold, score = Fin 10000\<rparr>]
     else case map_rankHand players of
            Inl e \<Rightarrow> Inl e
          | Inr rs \<Rightarrow> Inr (js_sort (\<lambda>handA handB. js_sub (score handB) (score handA)) rs))"

section \<open>Vocabulary of the specification\<close>

text \<open>The numeric value of a rank (an integer from 2 to 14).\<close>

fun rank_value :: "rank \<Rightarrow> int" where
  "rank_value R2 = 2"
| "rank_value R3 = 3"
| "rank_value R4 = 4"
| "rank_value R5 = 5"
| "rank_value R6 = 6"
| "rank_value R7 = 7"
| "rank_value R8 = 8"
| "rank_value R9 = 9"
| "rank_value R10 = 10"
| "rank_value R11 = 11"
| "rank_value R12 = 12"
| "rank_value R13 = 13"
| "rank_value R14 = 14"

text \<open>The ten in-hand categories in priority order; the index of a category is 0-based.\<close>

definition priority_order :: "HandCategory list" where
  "priority_order =
    [royal_flush, straight_flush, four_of_a_kind, full_house, flush, straight,
     three_of_a_kind, two_pairs, pair, high_card]"

text \<open>
  The straight rule in the words of the specification: the anchor is the lowest rank
  with count 1 (the ranks are walked in ascending order), and the five ranks anchor,
  anchor + 1, ..., anchor + 4 must each exist and have count exactly 1.
\<close>

definition straight_spec :: "(rank \<Rightarrow> nat) \<Rightarrow> bool" where
  "straight_spec ranks =
    (case find (\<lambda>r. ranks r = 1) rank_keys of
       None \<Rightarrow> False
     | Some anchor \<Rightarrow>
         list_all (\<lambda>i. \<exists>r\<in>set rank_keys. rank_value r = rank_value anchor + i \<and> ranks r = 1)
           [0, 1, 2, 3, 4])"

section \<open>Example hands\<close>

text \<open>The two hands of the worked example in the comment above \<open>rankHand\<close>.\<close>

definition hand1 :: "card list" where
  "hand1 = [\<lparr>rank = R4, suit = clubs\<rparr>, \<lparr>rank = R4, suit = diamonds\<rparr>,
            \<lparr>rank = R7, suit = hearts\<rparr>, \<lparr>rank = R2, suit = clubs\<rparr>,
            \<lparr>rank = R9, suit = spades\<rparr>]"

definition hand2 :: "card list" where
  "hand2 = [\<lparr>rank = R4, suit = spades\<rparr>, \<lparr>rank = R4, suit = hearts\<rparr>,
            \<lparr>rank = R7, suit = hearts\<rparr>, \<lparr>rank = R2, suit = clubs\<rparr>,
            \<lparr>rank = R11, suit = spades\<rparr>]"

definition quad_hand :: "card list" where
  "quad_hand = [\<lparr>rank = R3, suit = spades\<rparr>, \<lparr>rank = R3, suit = clubs\<rparr>,
                \<lparr>rank = R3, suit = hearts\<rparr>, \<lparr>rank = R3, suit = diamonds\<rparr>,
                \<lparr>rank = R9, suit = spades\<rparr>]"

definition royal_hand :: "card list" where
  "royal_hand = [\<lparr>rank = R12, suit = hearts\<rparr>, \<lparr>rank = R10, suit = hearts\<rparr>,
                 \<lparr>rank = R14, suit = hearts\<rparr>, \<lparr>rank = R11, suit = hearts\<rparr>,
                 \<lparr>rank = R13, suit = hearts\<rparr>]"

text \<open>Ace to five in mixed suits.\<close>

definition wheel_hand :: "card list" where
  "wheel_hand = [\<lparr>rank = R14, suit = spades\<rparr>, \<lparr>rank = R2, suit = spades\<rparr>,
                 \<lparr>rank = R3, suit = spades\<rparr>, \<lparr>rank = R4, suit = spades\<rparr>,
                 \<lparr>rank = R5, suit = hearts\<rparr>]"

text \<open>A player at seat \<open>n\<close> holding \<open>h\<close>.\<close>

definition seat :: "nat \<Rightarrow> card list option \<Rightarrow> nat PlayerWithHand" where
  "seat n h = \<lparr>player_info = n, hand = h\<rparr>"

section \<open>Tallies, selection and scores\<close>

lemma set_rank_keys: "set rank_keys = UNIV"
proof -
  have "r \<in> set rank_keys" for r by (cases r) (simp_all add: rank_keys_def)
  then show ?thesis by auto
qed

lemma distinct_rank_keys: "distinct rank_keys"
  by (simp add: rank_keys_def)

lemma set_suit_keys: "set suit_keys = UNIV"
proof -
  have "s \<in> set suit_keys" for s by (cases s) (simp_all add: suit_keys_def)
  then show ?thesis by auto
qed

lemma tally_fold:
  "fold (\<lambda>c (suits, ranks). (suits(suit c := suits (suit c) + 1), ranks(rank c := ranks (rank c) + 1))) h (S, R)
   = (\<lambda>s. S s + count_list (map suit h) s, \<lambda>r. R r + count_list (map rank h) r)"
proof (induction h arbitrary: S R)
  case Nil
  then show ?case by simp
next
  case (Cons c h)
  let ?f = "\<lambda>c (suits, ranks). (suits(suit c := suits (suit c) + 1), ranks(rank c := ranks (rank c) + (1::nat)))"
  have "fold ?f (c # h) (S, R) = fold ?f h (S(suit c := S (suit c) + 1), R(rank c := R (rank c) + 1))"
    by simp
  also have "\<dots> = (\<lambda>s. (S(suit c := S (suit c) + 1)) s + count_list (map suit h) s,
                     \<lambda>r. (R(rank c := R (rank c) + 1)) r + count_list (map rank h) r)"
    by (rule Cons.IH)
  also have "\<dots> = (\<lambda>s. S s + count_list (map suit (c # h)) s, \<lambda>r. R r + count_list (map rank (c # h)) r)"
    by (auto simp: fun_eq_iff)
  finally show ?case .
qed

lemma tally_count: "tally h = (count_list (map suit h), count_list (map rank h))"
  unfolding tally_def tally_fold by simp

lemma every_key_first:
  "j < length keys \<Longrightarrow> m (keys ! j) \<Longrightarrow> (\<forall>i<j. \<not> m (keys ! i)) \<Longrightarrow>
   every_key m keys n st = (Fin (1000 - (n + int j) * 100), Some (keys ! j))"
proof (induction keys arbitrary: j n st)
  case Nil
  then show ?case by simp
next
  case (Cons k keys)
  show ?case
  proof (cases j)
    case 0
    with Cons.prems show ?thesis by simp
  next
    case (Suc j')
    from Cons.prems Suc have nk: "\<not> m k" by auto
    have a: "j' < length keys" using Cons.prems Suc by simp
    have b: "m (keys ! j')" using Cons.prems Suc by simp
    have c: "\<forall>i<j'. \<not> m (keys ! i)" using Cons.prems(3) Suc by auto
    show ?thesis using Cons.IH[OF a b c, of "n + 1" "(Fin (1000 - n * 100), Some k)"] nk Suc
      by (simp add: algebra_simps)
  qed
qed


lemma parseInt_rank_key: "parseInt (Some (rank_key r)) = Fin (rank_value r)"
  by (cases r) (simp_all add: parseInt_def digit_val_def)

lemma Number_rank_key: "Number_js (rank_key r) = Fin (rank_value r)"
  by (cases r) (simp_all add: Number_js_def digit_val_def)

lemma rank_value_bounds: "2 \<le> rank_value r \<and> rank_value r \<le> 14"
  by (cases r) simp_all

lemma rank_value_inj: "rank_value r = rank_value r' \<Longrightarrow> r = r'"
  by (cases r; cases r') simp_all

lemma category_keys_priority: "category_keys = priority_order @ [win_via_fold]"
  by (simp add: category_keys_def priority_order_def)

lemma select_category_first:
  assumes j: "j < 10" and mj: "m (priority_order ! j)" and first: "\<forall>i<j. \<not> m (priority_order ! i)"
  shows "select_category m = (Fin (1000 - int j * 100), Some (priority_order ! j))"
proof -
  have len: "length priority_order = 10" by (simp add: priority_order_def)
  have nth: "category_keys ! i = priority_order ! i" if "i < 10" for i
    using that len by (simp add: category_keys_priority nth_append)
  have a: "j < length category_keys" using j by (simp add: category_keys_def)
  have b: "m (category_keys ! j)" using mj nth[OF j] by simp
  have c: "\<forall>i<j. \<not> m (category_keys ! i)" using first nth j by auto
  show ?thesis
    using every_key_first[OF a b c, of 0 "(Fin 0, None)"] nth[OF j]
    by (simp add: select_category_def)
qed

lemma select_category_cases:
  assumes hc: "m high_card"
  shows "\<exists>j<10. m (priority_order ! j) \<and> (\<forall>i<j. \<not> m (priority_order ! i)) \<and>
          select_category m = (Fin (1000 - int j * 100), Some (priority_order ! j))"
proof -
  define j where "j = (LEAST j. m (priority_order ! j))"
  have m9: "m (priority_order ! 9)" using hc by (simp add: priority_order_def)
  have mj: "m (priority_order ! j)" unfolding j_def using m9 by (rule LeastI)
  have le: "j \<le> 9" unfolding j_def using m9 by (rule Least_le)
  have first: "\<forall>i<j. \<not> m (priority_order ! i)"
    unfolding j_def using not_less_Least by blast
  have "j < 10" using le by simp
  with mj first select_category_first[of j m] show ?thesis by blast
qed

lemma categoryMap_high_card: "categoryMap suits ranks high_card"
  by (simp add: categoryMap_def categoryMap0_def Let_def)


lemma fold_card_values:
  "fold (\<lambda>c s. js_add s (parseInt (Some (rank_key (rank c))))) h (Fin b)
   = Fin (b + sum_list (map (\<lambda>c. rank_value (rank c)) h))"
  by (induction h arbitrary: b) (simp_all add: parseInt_rank_key algebra_simps)

lemma foldl_max_Fin:
  "foldl js_max2 (Fin a) (map Fin xs) = Fin (Max (insert a (set xs)))"
proof (induction xs arbitrary: a)
  case Nil
  then show ?case by simp
next
  case (Cons x xs)
  have "js_max2 (Fin a) (Fin x) = Fin (max a x)" by (simp add: max_def)
  then have "foldl js_max2 (Fin a) (map Fin (x # xs)) = Fin (Max (insert (max a x) (set xs)))"
    using Cons.IH[of "max a x"] by simp
  also have "Max (insert (max a x) (set xs)) = Max (insert a (set (x # xs)))"
  proof (cases "set xs = {}")
    case True
    then show ?thesis by (simp add: max.commute)
  next
    case False
    then show ?thesis by (simp add: max.assoc max.left_commute max.commute)
  qed
  finally show ?case .
qed

lemma Math_max_Fin:
  "Math_max (map Fin xs) = (if xs = [] then NegInfinity else Fin (Max (set xs)))"
proof (cases xs)
  case Nil
  then show ?thesis by (simp add: Math_max_def)
next
  case (Cons x xs')
  then show ?thesis using foldl_max_Fin[of x xs'] by (simp add: Math_max_def)
qed

lemma Math_max_keys:
  "Math_max (map (\<lambda>key. Number_js (rank_key key)) ks)
   = (if ks = [] then NegInfinity else Fin (Max (rank_value ` set ks)))"
proof -
  have eq: "map (\<lambda>key. Number_js (rank_key key)) ks = map Fin (map rank_value ks)"
    by (simp add: Number_rank_key)
  show ?thesis unfolding eq Math_max_Fin by simp
qed

lemma length_filter_counts:
  "length (filter (\<lambda>count. count = n) (map ranks rank_keys)) = length (keys_with ranks n)"
  by (simp add: keys_with_def filter_map comp_def)

lemma list_ex_counts:
  "list_ex (\<lambda>count. count = n) (map ranks rank_keys) = (keys_with ranks n \<noteq> [])"
  by (auto simp: keys_with_def list_ex_iff filter_empty_conv)

lemma keys_with_nonempty: "(keys_with ranks n \<noteq> []) = (\<exists>r. ranks r = n)"
  by (auto simp: keys_with_def filter_empty_conv set_rank_keys)

lemma set_keys_with: "set (keys_with ranks n) = {r. ranks r = n}"
  by (auto simp: keys_with_def set_rank_keys)

lemma distinct_keys_with: "distinct (keys_with ranks n)"
  by (simp add: keys_with_def distinct_rank_keys)

lemma cm_four: "categoryMap suits ranks four_of_a_kind = (keys_with ranks 4 \<noteq> [])"
  by (simp add: categoryMap_def categoryMap0_def Let_def list_ex_counts)

lemma cm_three: "categoryMap suits ranks three_of_a_kind = (keys_with ranks 3 \<noteq> [])"
  by (simp add: categoryMap_def categoryMap0_def Let_def list_ex_counts)

lemma cm_two_pairs: "categoryMap suits ranks two_pairs = (length (keys_with ranks 2) = 2)"
  by (simp add: categoryMap_def categoryMap0_def Let_def keys_with_def filter_map comp_def)

lemma cm_pair: "categoryMap suits ranks pair = (length (keys_with ranks 2) = 1)"
  by (simp add: categoryMap_def categoryMap0_def Let_def keys_with_def filter_map comp_def)

lemma cm_full_house:
  "categoryMap suits ranks full_house = (length (filter (\<lambda>key. ranks key \<noteq> 0) rank_keys) = 2)"
  by (simp add: categoryMap_def categoryMap0_def Let_def filter_map comp_def)

lemma cm_flush: "categoryMap suits ranks flush = (\<exists>s. suits s = 5)"
  by (auto simp: categoryMap_def categoryMap0_def Let_def list_ex_iff set_suit_keys)

lemma cm_straight:
  "categoryMap suits ranks straight =
    (length (filter (\<lambda>count. count = 1)
       (slice (map ranks rank_keys) (firstCardIndex ranks) (firstCardIndex ranks + 5))) = 5)"
  by (simp add: categoryMap_def categoryMap0_def Let_def)

lemma cm_straight_flush:
  "categoryMap suits ranks straight_flush =
    (categoryMap suits ranks flush \<and> categoryMap suits ranks straight)"
  by (simp add: categoryMap_def categoryMap0_def Let_def)

lemma cm_royal_flush:
  "categoryMap suits ranks royal_flush =
    (categoryMap suits ranks straight_flush \<and> firstCardIndex ranks = 8)"
  by (simp add: categoryMap_def categoryMap0_def Let_def TEN_CARD_POSITION_def)

lemma cm_win_via_fold: "\<not> categoryMap suits ranks win_via_fold"
  by (simp add: categoryMap_def categoryMap0_def Let_def)

lemma rankHand_Some:
  assumes "hand p = Some h"
    and "select_category (categoryMap (count_list (map suit h)) (count_list (map rank h))) = (s0, cat)"
  shows "rankHand p =
    (case add_card_values h (count_list (map rank h)) cat s0 of
       Inl e \<Rightarrow> Inl e
     | Inr s1 \<Rightarrow> Inr \<lparr>player = p, category = cat,
                     score = add_kicker (count_list (map rank h)) cat s1\<rparr>)"
  using assms by (simp add: rankHand_def tally_count)

lemma acv_sum:
  assumes "c = royal_flush \<or> c = straight_flush \<or> c = full_house \<or> c = flush \<or> c = straight"
  shows "add_card_values h ranks (Some c) (Fin b)
         = Inr (Fin (b + sum_list (map (\<lambda>c. rank_value (rank c)) h)))"
  using assms by (auto simp: add_card_values_def fold_card_values)

lemma at_index_0: "at_index xs 0 = (case xs of [] \<Rightarrow> None | x # _ \<Rightarrow> Some x)"
  by (cases xs) (simp_all add: at_index_def)

lemma acv_four:
  assumes "keys_with ranks 4 \<noteq> []"
  shows "add_card_values h ranks (Some four_of_a_kind) (Fin b)
         = Inr (Fin (b + rank_value (hd (keys_with ranks 4)) * 4))"
  using assms by (cases "keys_with ranks 4") (simp_all add: add_card_values_def at_index_0 parseInt_rank_key)

lemma acv_three:
  assumes "keys_with ranks 3 \<noteq> []"
  shows "add_card_values h ranks (Some three_of_a_kind) (Fin b)
         = Inr (Fin (b + rank_value (hd (keys_with ranks 3)) * 3))"
  using assms by (cases "keys_with ranks 3") (simp_all add: add_card_values_def at_index_0 parseInt_rank_key)

lemma acv_two_pairs:
  assumes "keys_with ranks 2 = [k0, k1]"
  shows "add_card_values h ranks (Some two_pairs) (Fin b)
         = Inr (Fin (b + (rank_value k0 * 2 + rank_value k1 * 2)))"
  using assms by (simp add: add_card_values_def at_index_def parseInt_rank_key)

lemma acv_pair:
  assumes "keys_with ranks 2 = [k]"
  shows "add_card_values h ranks (Some pair) (Fin b) = Inr (Fin (b + rank_value k * 2))"
  using assms by (simp add: add_card_values_def reduce_concat_def parseInt_rank_key)

lemma acv_high_card: "add_card_values h ranks (Some high_card) s = Inr s"
  by (simp add: add_card_values_def)

lemma kicker_added:
  assumes "c = two_pairs \<or> c = pair \<or> c = high_card"
  shows "add_kicker ranks (Some c) (Fin b) =
         (if keys_with ranks 1 = [] then NegInfinity
          else Fin (b + Max (rank_value ` set (keys_with ranks 1))))"
  using assms by (auto simp: add_kicker_def Math_max_keys)

lemma kicker_skipped:
  assumes "c \<noteq> two_pairs" "c \<noteq> pair" "c \<noteq> high_card"
  shows "add_kicker ranks (Some c) s = s"
  using assms by (simp add: add_kicker_def)


lemma rankHand_sum:
  assumes "hand p = Some h"
    and "select_category (categoryMap (count_list (map suit h)) (count_list (map rank h))) = (Fin b, Some c)"
    and "c = royal_flush \<or> c = straight_flush \<or> c = full_house \<or> c = flush \<or> c = straight"
  shows "rankHand p = Inr \<lparr>player = p, category = Some c,
           score = Fin (b + sum_list (map (\<lambda>c. rank_value (rank c)) h))\<rparr>"
proof -
  have k: "c \<noteq> two_pairs" "c \<noteq> pair" "c \<noteq> high_card" using assms(3) by auto
  show ?thesis
    unfolding rankHand_Some[OF assms(1,2)] acv_sum[OF assms(3)] by (simp add: kicker_skipped[OF k])
qed

lemma rankHand_four:
  assumes "hand p = Some h"
    and "select_category (categoryMap (count_list (map suit h)) (count_list (map rank h))) = (Fin b, Some four_of_a_kind)"
    and "keys_with (count_list (map rank h)) 4 \<noteq> []"
  shows "rankHand p = Inr \<lparr>player = p, category = Some four_of_a_kind,
           score = Fin (b + rank_value (hd (keys_with (count_list (map rank h)) 4)) * 4)\<rparr>"
  unfolding rankHand_Some[OF assms(1,2)] acv_four[OF assms(3)] by (simp add: kicker_skipped)

lemma rankHand_three:
  assumes "hand p = Some h"
    and "select_category (categoryMap (count_list (map suit h)) (count_list (map rank h))) = (Fin b, Some three_of_a_kind)"
    and "keys_with (count_list (map rank h)) 3 \<noteq> []"
  shows "rankHand p = Inr \<lparr>player = p, category = Some three_of_a_kind,
           score = Fin (b + rank_value (hd (keys_with (count_list (map rank h)) 3)) * 3)\<rparr>"
  unfolding rankHand_Some[OF assms(1,2)] acv_three[OF assms(3)] by (simp add: kicker_skipped)

lemma rankHand_two_pairs:
  assumes "hand p = Some h"
    and "select_category (categoryMap (count_list (map suit h)) (count_list (map rank h))) = (Fin b, Some two_pairs)"
    and "keys_with (count_list (map rank h)) 2 = [k0, k1]"
  shows "rankHand p = Inr \<lparr>player = p, category = Some two_pairs,
           score = (if keys_with (count_list (map rank h)) 1 = [] then NegInfinity
                    else Fin (b + (rank_value k0 * 2 + rank_value k1 * 2)
                              + Max (rank_value ` set (keys_with (count_list (map rank h)) 1))))\<rparr>"
  unfolding rankHand_Some[OF assms(1,2)] acv_two_pairs[OF assms(3)] by (simp add: kicker_added)

lemma rankHand_pair:
  assumes "hand p = Some h"
    and "select_category (categoryMap (count_list (map suit h)) (count_list (map rank h))) = (Fin b, Some pair)"
    and "keys_with (count_list (map rank h)) 2 = [k]"
  shows "rankHand p = Inr \<lparr>player = p, category = Some pair,
           score = (if keys_with (count_list (map rank h)) 1 = [] then NegInfinity
                    else Fin (b + rank_value k * 2
                              + Max (rank_value ` set (keys_with (count_list (map rank h)) 1))))\<rparr>"
  unfolding rankHand_Some[OF assms(1,2)] acv_pair[OF assms(3)] by (simp add: kicker_added)

lemma rankHand_high_card:
  assumes "hand p = Some h"
    and "select_category (categoryMap (count_list (map suit h)) (count_list (map rank h))) = (Fin b, Some high_card)"
  shows "rankHand p = Inr \<lparr>player = p, category = Some high_card,
           score = (if keys_with (count_list (map rank h)) 1 = [] then NegInfinity
                    else Fin (b + Max (rank_value ` set (keys_with (count_list (map rank h)) 1))))\<rparr>"
  unfolding rankHand_Some[OF assms(1,2)] acv_high_card by (simp add: kicker_added)

lemma length2_list: "length xs = 2 \<Longrightarrow> \<exists>a b. xs = [a, b]"
  by (cases xs; cases "tl xs") auto

lemma length1_list: "length xs = 1 \<Longrightarrow> \<exists>a. xs = [a]"
  by (cases xs) auto

lemma priority_cases:
  assumes "j < 10"
  obtains "priority_order ! j = royal_flush" "j = 0"
  | "priority_order ! j = straight_flush" "j = 1"
  | "priority_order ! j = four_of_a_kind" "j = 2"
  | "priority_order ! j = full_house" "j = 3"
  | "priority_order ! j = flush" "j = 4"
  | "priority_order ! j = straight" "j = 5"
  | "priority_order ! j = three_of_a_kind" "j = 6"
  | "priority_order ! j = two_pairs" "j = 7"
  | "priority_order ! j = pair" "j = 8"
  | "priority_order ! j = high_card" "j = 9"
proof -
  from assms have "j = 0 \<or> j = 1 \<or> j = 2 \<or> j = 3 \<or> j = 4 \<or> j = 5 \<or> j = 6 \<or> j = 7 \<or> j = 8 \<or> j = 9"
    by arith
  then show ?thesis
    using that by (elim disjE) (simp_all add: priority_order_def)
qed

text \<open>The outcome of rankHand on a hand that is present.\<close>

lemma rankHand_present:
  assumes hp: "hand p = Some h"
  shows "\<exists>j s. j < 10
           \<and> categoryMap (count_list (map suit h)) (count_list (map rank h)) (priority_order ! j)
           \<and> (\<forall>i<j. \<not> categoryMap (count_list (map suit h)) (count_list (map rank h)) (priority_order ! i))
           \<and> select_category (categoryMap (count_list (map suit h)) (count_list (map rank h)))
               = (Fin (1000 - int j * 100), Some (priority_order ! j))
           \<and> rankHand p = Inr \<lparr>player = p, category = Some (priority_order ! j), score = s\<rparr>
           \<and> (s = NegInfinity \<or> (\<exists>n. s = Fin n))"
proof -
  let ?ranks = "count_list (map rank h)"
  let ?m = "categoryMap (count_list (map suit h)) ?ranks"
  have "?m high_card" by (rule categoryMap_high_card)
  from select_category_cases[of ?m, OF this]
  obtain j where j: "j < 10" and mj: "?m (priority_order ! j)"
    and first: "\<forall>i<j. \<not> ?m (priority_order ! i)"
    and sel: "select_category ?m = (Fin (1000 - int j * 100), Some (priority_order ! j))"
    by blast
  have "\<exists>s. rankHand p = Inr \<lparr>player = p, category = Some (priority_order ! j), score = s\<rparr>
           \<and> (s = NegInfinity \<or> (\<exists>n. s = Fin n))"
  proof (cases rule: priority_cases[OF j])
    case 1
    with rankHand_sum[OF hp sel] show ?thesis by simp
  next
    case 2
    with rankHand_sum[OF hp sel] show ?thesis by simp
  next
    case 3
    from mj 3 have "keys_with ?ranks 4 \<noteq> []" by (simp add: cm_four)
    with rankHand_four[OF hp] sel 3 show ?thesis by simp
  next
    case 4
    with rankHand_sum[OF hp sel] show ?thesis by simp
  next
    case 5
    with rankHand_sum[OF hp sel] show ?thesis by simp
  next
    case 6
    with rankHand_sum[OF hp sel] show ?thesis by simp
  next
    case 7
    from mj 7 have "keys_with ?ranks 3 \<noteq> []" by (simp add: cm_three)
    with rankHand_three[OF hp] sel 7 show ?thesis by simp
  next
    case 8
    from mj 8 have "length (keys_with ?ranks 2) = 2" by (simp add: cm_two_pairs)
    then obtain k0 k1 where "keys_with ?ranks 2 = [k0, k1]" using length2_list by blast
    with rankHand_two_pairs[OF hp, of _ k0 k1] sel 8 show ?thesis by simp
  next
    case 9
    from mj 9 have "length (keys_with ?ranks 2) = 1" by (simp add: cm_pair)
    then obtain k where "keys_with ?ranks 2 = [k]" using length1_list by blast
    with rankHand_pair[OF hp, of _ k] sel 9 show ?thesis by simp
  next
    case 10
    with rankHand_high_card[OF hp] sel show ?thesis by simp
  qed
  with j mj first sel show ?thesis by blast
qed


lemma rankHand_absent:
  "hand p = None \<Longrightarrow>
   rankHand p = Inl (InternalServerErrorException ''Attempting to rank a non-existant hand!'')"
  by (simp add: rankHand_def)

lemma rankHand_Inr_iff: "(\<exists>r. rankHand p = Inr r) = (hand p \<noteq> None)"
proof (cases "hand p")
  case None
  then show ?thesis by (simp add: rankHand_absent)
next
  case (Some h)
  from rankHand_present[OF Some] show ?thesis using Some by auto
qed

lemma map_rankHand_Inr: "(map_rankHand ps = Inr rs) = (map rankHand ps = map Inr rs)"
proof (induction ps arbitrary: rs)
  case Nil
  then show ?case by auto
next
  case (Cons p ps)
  show ?case
  proof (cases "rankHand p")
    case (Inl e)
    then show ?thesis by (cases rs) auto
  next
    case r: (Inr r)
    show ?thesis
    proof (cases "map_rankHand ps")
      case (Inl e)
      have "map rankHand ps \<noteq> map Inr rs'" for rs'
        using Cons.IH[of rs'] Inl by auto
      then show ?thesis using r Inl by (cases rs) auto
    next
      case (Inr rs0)
      then have "map rankHand ps = map Inr rs0" using Cons.IH by simp
      then show ?thesis using r Inr by (cases rs) (auto simp: inj_map_eq_map)
    qed
  qed
qed

lemma map_rankHand_Inl:
  "map_rankHand ps = Inl e \<Longrightarrow>
   e = InternalServerErrorException ''Attempting to rank a non-existant hand!''
   \<and> (\<exists>q\<in>set ps. hand q = None)"
proof (induction ps)
  case Nil
  then show ?case by simp
next
  case (Cons p ps)
  show ?case
  proof (cases "hand p")
    case None
    with Cons.prems show ?thesis by (simp add: rankHand_absent)
  next
    case (Some h)
    with rankHand_Inr_iff[of p] obtain r where r: "rankHand p = Inr r" by auto
    with Cons.prems have "map_rankHand ps = Inl e" by (auto split: sum.splits)
    with Cons.IH show ?thesis by auto
  qed
qed

lemma map_rankHand_total:
  "\<forall>q\<in>set ps. hand q \<noteq> None \<Longrightarrow> \<exists>rs. map_rankHand ps = Inr rs"
proof (induction ps)
  case Nil
  then show ?case by simp
next
  case (Cons p ps)
  then obtain rs where "map_rankHand ps = Inr rs" by auto
  moreover from Cons.prems rankHand_Inr_iff[of p] obtain r where "rankHand p = Inr r" by auto
  ultimately show ?case by simp
qed

lemma mset_sort_insert: "mset (sort_insert cmp x ys) = add_mset x (mset ys)"
  by (induction ys) simp_all

lemma mset_js_sort: "mset (js_sort cmp xs) = mset xs"
  by (induction xs) (simp_all add: js_sort_def mset_sort_insert)

lemma set_sort_insert: "set (sort_insert cmp x ys) = insert x (set ys)"
  by (induction ys) auto

lemma js_sort_Cons: "js_sort cmp (x # xs) = sort_insert cmp x (js_sort cmp xs)"
  by (simp add: js_sort_def)

lemma js_less_irrefl: "\<not> js_less a a"
  by (cases a) simp_all

lemma cmp_positive:
  assumes "a = NegInfinity \<or> (\<exists>n. a = Fin n)" "b = NegInfinity \<or> (\<exists>n. b = Fin n)"
  shows "js_less (Fin 0) (js_sub b a) = js_less a b"
  using assms by (auto simp: js_sub_def)

lemma js_less_eq_total:
  assumes "a = NegInfinity \<or> (\<exists>n. a = Fin n)" "b = NegInfinity \<or> (\<exists>n. b = Fin n)"
  shows "js_less a b \<Longrightarrow> js_less_eq a b" "\<not> js_less a b \<Longrightarrow> js_less_eq b a"
  using assms by auto

lemma js_less_eq_trans:
  assumes "a = NegInfinity \<or> (\<exists>n. a = Fin n)" "b = NegInfinity \<or> (\<exists>n. b = Fin n)"
    "c = NegInfinity \<or> (\<exists>n. c = Fin n)"
  shows "js_less_eq a b \<Longrightarrow> js_less_eq b c \<Longrightarrow> js_less_eq a c"
  using assms by auto

lemma sorted_sort_insert:
  fixes x :: "'p RankHandReponse"
  assumes ord: "\<forall>z\<in>set (x # ys). score z = NegInfinity \<or> (\<exists>n. score z = Fin n)"
    and srt: "sorted_wrt (\<lambda>a b. js_less_eq (score b) (score a)) ys"
  shows "sorted_wrt (\<lambda>a b. js_less_eq (score b) (score a))
           (sort_insert (\<lambda>handA handB. js_sub (score handB) (score handA)) x ys)"
  using ord srt
proof (induction ys)
  case Nil
  then show ?case by simp
next
  case (Cons y ys)
  let ?cmp = "\<lambda>handA handB :: 'p RankHandReponse. js_sub (score handB) (score handA)"
  have ox: "score x = NegInfinity \<or> (\<exists>n. score x = Fin n)" using Cons.prems(1) by simp
  have oy: "score y = NegInfinity \<or> (\<exists>n. score y = Fin n)" using Cons.prems(1) by simp
  have oz: "\<forall>z\<in>set ys. score z = NegInfinity \<or> (\<exists>n. score z = Fin n)" using Cons.prems(1) by simp
  have sy: "\<forall>z\<in>set ys. js_less_eq (score z) (score y)" using Cons.prems(2) by simp
  have sys: "sorted_wrt (\<lambda>a b. js_less_eq (score b) (score a)) ys" using Cons.prems(2) by simp
  show ?case
  proof (cases "js_less (score x) (score y)")
    case True
    have ih: "sorted_wrt (\<lambda>a b. js_less_eq (score b) (score a)) (sort_insert ?cmp x ys)"
      using Cons.IH ox oz sys by simp
    have "js_less_eq (score x) (score y)" using js_less_eq_total(1)[OF ox oy True] .
    then have "\<forall>z\<in>set (sort_insert ?cmp x ys). js_less_eq (score z) (score y)"
      using sy by (simp add: set_sort_insert)
    with ih True show ?thesis by (simp add: cmp_positive[OF ox oy])
  next
    case False
    have yx: "js_less_eq (score y) (score x)" using js_less_eq_total(2)[OF ox oy False] .
    have "js_less_eq (score z) (score x)" if "z \<in> set ys" for z
      using js_less_eq_trans[of "score z" "score y" "score x"] oz ox oy sy yx that by blast
    with yx False Cons.prems(2) show ?thesis by (simp add: cmp_positive[OF ox oy])
  qed
qed

lemma sorted_js_sort:
  fixes xs :: "'p RankHandReponse list"
  assumes "\<forall>z\<in>set xs. score z = NegInfinity \<or> (\<exists>n. score z = Fin n)"
  shows "sorted_wrt (\<lambda>a b. js_less_eq (score b) (score a))
           (js_sort (\<lambda>handA handB. js_sub (score handB) (score handA)) xs)"
  using assms
proof (induction xs)
  case Nil
  then show ?case by (simp add: js_sort_def)
next
  case (Cons x xs)
  let ?cmp = "\<lambda>handA handB :: 'p RankHandReponse. js_sub (score handB) (score handA)"
  have "set (js_sort ?cmp xs) = set xs" using mset_js_sort[of ?cmp xs] by (metis set_mset_mset)
  then have "\<forall>z\<in>set (x # js_sort ?cmp xs). score z = NegInfinity \<or> (\<exists>n. score z = Fin n)"
    using Cons.prems by simp
  moreover have "sorted_wrt (\<lambda>a b. js_less_eq (score b) (score a)) (js_sort ?cmp xs)"
    using Cons by simp
  ultimately show ?case unfolding js_sort_Cons by (rule sorted_sort_insert)
qed

lemma stable_sort_insert:
  fixes x :: "'p RankHandReponse"
  assumes "\<forall>z\<in>set (x # ys). score z = NegInfinity \<or> (\<exists>n. score z = Fin n)"
  shows "filter (\<lambda>r. score r = s) (sort_insert (\<lambda>handA handB. js_sub (score handB) (score handA)) x ys)
         = filter (\<lambda>r. score r = s) (x # ys)"
  using assms
proof (induction ys)
  case Nil
  then show ?case by simp
next
  case (Cons y ys)
  have ox: "score x = NegInfinity \<or> (\<exists>n. score x = Fin n)" using Cons.prems(1) by simp
  have oy: "score y = NegInfinity \<or> (\<exists>n. score y = Fin n)" using Cons.prems(1) by simp
  have ih: "filter (\<lambda>r. score r = s) (sort_insert (\<lambda>handA handB. js_sub (score handB) (score handA)) x ys)
         = filter (\<lambda>r. score r = s) (x # ys)"
    using Cons by simp
  show ?case
  proof (cases "js_less (score x) (score y)")
    case True
    then have "score x \<noteq> score y" using js_less_irrefl[of "score x"] by auto
    with True ih show ?thesis by (auto simp: cmp_positive[OF ox oy])
  next
    case False
    then show ?thesis by (simp add: cmp_positive[OF ox oy])
  qed
qed

lemma stable_js_sort:
  fixes xs :: "'p RankHandReponse list"
  assumes "\<forall>z\<in>set xs. score z = NegInfinity \<or> (\<exists>n. score z = Fin n)"
  shows "filter (\<lambda>r. score r = s) (js_sort (\<lambda>handA handB. js_sub (score handB) (score handA)) xs)
         = filter (\<lambda>r. score r = s) xs"
  using assms
proof (induction xs)
  case Nil
  then show ?case by (simp add: js_sort_def)
next
  case (Cons x xs)
  let ?cmp = "\<lambda>handA handB :: 'p RankHandReponse. js_sub (score handB) (score handA)"
  have "set (js_sort ?cmp xs) = set xs" using mset_js_sort[of ?cmp xs] by (metis set_mset_mset)
  then have "\<forall>z\<in>set (x # js_sort ?cmp xs). score z = NegInfinity \<or> (\<exists>n. score z = Fin n)"
    using Cons.prems by simp
  from stable_sort_insert[OF this, of s] Cons show ?case by (simp add: js_sort_Cons)
qed

lemma rankHand_Inr_result:
  assumes "rankHand p = Inr r"
  shows "player r = p \<and> (score r = NegInfinity \<or> (\<exists>n. score r = Fin n))"
proof -
  from assms rankHand_Inr_iff[of p] obtain h where h: "hand p = Some h" by auto
  from rankHand_present[OF h] assms show ?thesis by auto
qed

section \<open>The straight flag\<close>

lemma findIndex_none: "(\<forall>x\<in>set xs. \<not> P x) \<Longrightarrow> findIndex P xs = - 1"
  by (induction xs) (simp_all add: Let_def)

lemma findIndex_first:
  "n < length xs \<Longrightarrow> P (xs ! n) \<Longrightarrow> (\<forall>i<n. \<not> P (xs ! i)) \<Longrightarrow> findIndex P xs = int n"
proof (induction xs arbitrary: n)
  case Nil
  then show ?case by simp
next
  case (Cons x xs)
  show ?case
  proof (cases n)
    case 0
    with Cons.prems show ?thesis by simp
  next
    case (Suc n')
    have nx: "\<not> P x" using Cons.prems(3) Suc by auto
    have "\<not> P (xs ! i)" if "i < n'" for i
      using Cons.prems(3)[rule_format, of "Suc i"] that Suc by simp
    then have "findIndex P xs = int n'"
      using Cons.IH[of n'] Cons.prems(1,2) Suc by simp
    with nx Suc show ?thesis by (simp add: Let_def)
  qed
qed

lemma first_index_exists:
  assumes "\<exists>x\<in>set xs. P x"
  shows "\<exists>n<length xs. P (xs ! n) \<and> (\<forall>i<n. \<not> P (xs ! i))"
proof -
  from assms obtain k where k: "k < length xs" "P (xs ! k)" by (auto simp: in_set_conv_nth)
  define n where "n = (LEAST n. n < length xs \<and> P (xs ! n))"
  have a: "n < length xs \<and> P (xs ! n)" unfolding n_def
    by (rule LeastI[of "\<lambda>n. n < length xs \<and> P (xs ! n)" k]) (simp add: k)
  have b: "\<not> P (xs ! i)" if "i < n" for i
  proof
    assume "P (xs ! i)"
    moreover have "i < length xs" using that a by simp
    ultimately have "n \<le> i" unfolding n_def
      by (intro Least_le[of "\<lambda>n. n < length xs \<and> P (xs ! n)" i]) simp
    with that show False by simp
  qed
  from a b show ?thesis by blast
qed

lemma slice_from:
  "n \<le> length xs \<Longrightarrow> slice xs (int n) (int n + 5) = take 5 (drop n xs)"
  by (auto simp: slice_def Let_def min_def)

lemma slice_not_found: "5 \<le> length xs \<Longrightarrow> slice xs (- 1) (- 1 + 5) = []"
  by (simp add: slice_def Let_def)

lemma filter_all_five:
  assumes "length ys \<le> 5"
  shows "(length (filter P ys) = 5) = (length ys = 5 \<and> (\<forall>y\<in>set ys. P y))"
proof
  assume a: "length (filter P ys) = 5"
  have "length (filter P ys) \<le> length ys" by simp
  with a assms have l: "length ys = 5" by simp
  with a have e: "length (filter P ys) = length ys" by simp
  have "P y" if "y \<in> set ys" for y
  proof (rule ccontr)
    assume "\<not> P y"
    with that have "length (filter P ys) < length ys" by (rule length_filter_less)
    with e show False by simp
  qed
  with l show "length ys = 5 \<and> (\<forall>y\<in>set ys. P y)" by blast
next
  assume "length ys = 5 \<and> (\<forall>y\<in>set ys. P y)"
  then have "filter P ys = ys" by (simp add: filter_id_conv)
  with \<open>length ys = 5 \<and> (\<forall>y\<in>set ys. P y)\<close> show "length (filter P ys) = 5" by simp
qed

lemma take_drop_all:
  "(length (take 5 (drop n xs)) = 5 \<and> (\<forall>y\<in>set (take 5 (drop n xs)). P y))
   = (n + 5 \<le> length xs \<and> (\<forall>i<5. P (xs ! (n + i))))"
proof
  assume a: "length (take 5 (drop n xs)) = 5 \<and> (\<forall>y\<in>set (take 5 (drop n xs)). P y)"
  then have l: "n + 5 \<le> length xs" by auto
  have "P (xs ! (n + i))" if "i < 5" for i
  proof -
    have "take 5 (drop n xs) ! i = xs ! (n + i)" using that l by simp
    moreover have "take 5 (drop n xs) ! i \<in> set (take 5 (drop n xs))"
      using a that by (intro nth_mem) simp
    ultimately show ?thesis using a by auto
  qed
  with l show "n + 5 \<le> length xs \<and> (\<forall>i<5. P (xs ! (n + i)))" by blast
next
  assume a: "n + 5 \<le> length xs \<and> (\<forall>i<5. P (xs ! (n + i)))"
  then have l: "length (take 5 (drop n xs)) = 5" by simp arith
  have "P y" if "y \<in> set (take 5 (drop n xs))" for y
  proof -
    from that obtain i where i: "i < length (take 5 (drop n xs))" "take 5 (drop n xs) ! i = y"
      unfolding in_set_conv_nth by blast
    from i(1) l have i5: "i < 5" by simp
    then have "take 5 (drop n xs) ! i = xs ! (n + i)" using a by simp
    with i(2) i5 a show ?thesis by auto
  qed
  with l show "length (take 5 (drop n xs)) = 5 \<and> (\<forall>y\<in>set (take 5 (drop n xs)). P y)" by blast
qed



text \<open>The straight flag: a run of five single counts starts at the first single count.\<close>

lemma straight_flag_iff:
  "categoryMap suits ranks straight =
    (\<exists>n. n + 5 \<le> 13 \<and> (\<forall>i<n. ranks (rank_keys ! i) \<noteq> 1) \<and> (\<forall>i<5. ranks (rank_keys ! (n + i)) = 1))"
proof -
  let ?vals = "map ranks rank_keys"
  let ?P = "\<lambda>index::nat. index = 1"
  have len: "length ?vals = 13" by (simp add: rank_keys_def)
  have lenk: "length rank_keys = 13" by (simp add: rank_keys_def)
  show ?thesis
  proof (cases "\<exists>x\<in>set ?vals. ?P x")
    case False
    then have "firstCardIndex ranks = - 1"
      unfolding firstCardIndex_def using False by (intro findIndex_none) blast
    then have l: "\<not> categoryMap suits ranks straight"
      unfolding cm_straight using slice_not_found[of ?vals] len by simp
    have "\<not> (\<exists>n. n + 5 \<le> 13 \<and> (\<forall>i<n. ranks (rank_keys ! i) \<noteq> 1) \<and> (\<forall>i<5. ranks (rank_keys ! (n + i)) = 1))"
    proof
      assume "\<exists>n. n + 5 \<le> 13 \<and> (\<forall>i<n. ranks (rank_keys ! i) \<noteq> 1) \<and> (\<forall>i<5. ranks (rank_keys ! (n + i)) = 1)"
      then obtain n where n: "n + 5 \<le> 13" "\<forall>i<5. ranks (rank_keys ! (n + i)) = 1" by blast
      then have "ranks (rank_keys ! (n + 0)) = 1" using n(2)[rule_format, of 0] by simp
      moreover have "?vals ! n \<in> set ?vals" using n(1) len by (intro nth_mem) simp
      ultimately show False using False n(1) lenk by auto
    qed
    with l show ?thesis by blast
  next
    case True
    from first_index_exists[OF True] obtain n where
      n: "n < length ?vals" "?P (?vals ! n)" "\<forall>i<n. \<not> ?P (?vals ! i)" by blast
    have f: "firstCardIndex ranks = int n"
      unfolding firstCardIndex_def using n by (intro findIndex_first) auto
    have nk: "n < 13" using n(1) len by simp
    have before: "\<forall>i<n. ranks (rank_keys ! i) \<noteq> 1" using n(3) nk lenk by auto
    have at: "ranks (rank_keys ! n) = 1" using n(2) nk lenk by auto
    have "categoryMap suits ranks straight =
        (length (filter ?P (take 5 (drop n ?vals))) = 5)"
      unfolding cm_straight f using slice_from[of n ?vals] n(1) by simp
    also have "\<dots> = (length (take 5 (drop n ?vals)) = 5 \<and> (\<forall>y\<in>set (take 5 (drop n ?vals)). ?P y))"
      by (rule filter_all_five) simp
    also have "\<dots> = (n + 5 \<le> length ?vals \<and> (\<forall>i<5. ?P (?vals ! (n + i))))"
      by (rule take_drop_all)
    also have "\<dots> = (n + 5 \<le> 13 \<and> (\<forall>i<5. ranks (rank_keys ! (n + i)) = 1))"
      using lenk by auto
    finally have l: "categoryMap suits ranks straight =
        (n + 5 \<le> 13 \<and> (\<forall>i<5. ranks (rank_keys ! (n + i)) = 1))" .
    have uniq: "n' = n" if "\<forall>i<n'. ranks (rank_keys ! i) \<noteq> 1" "\<forall>i<5. ranks (rank_keys ! (n' + i)) = 1" for n'
    proof -
      have "ranks (rank_keys ! (n' + 0)) = 1" using that(2)[rule_format, of 0] by simp
      then have a: "ranks (rank_keys ! n') = 1" by simp
      have "\<not> n < n'" using that(1) at by auto
      moreover have "\<not> n' < n" using before a by auto
      ultimately show ?thesis by simp
    qed
    show ?thesis unfolding l using before uniq by blast
  qed
qed


lemma rank_value_nth: "i < 13 \<Longrightarrow> rank_value (rank_keys ! i) = int i + 2"
proof -
  assume "i < 13"
  then have "i = 0 \<or> i = 1 \<or> i = 2 \<or> i = 3 \<or> i = 4 \<or> i = 5 \<or> i = 6 \<or> i = 7 \<or> i = 8
      \<or> i = 9 \<or> i = 10 \<or> i = 11 \<or> i = 12" by arith
  then show ?thesis by (elim disjE) (simp_all add: rank_keys_def)
qed

lemma rank_at_offset:
  assumes n: "n < 13"
  shows "(\<exists>r\<in>set rank_keys. rank_value r = rank_value (rank_keys ! n) + int k \<and> ranks r = 1)
         = (n + k < 13 \<and> ranks (rank_keys ! (n + k)) = 1)"
proof
  assume "\<exists>r\<in>set rank_keys. rank_value r = rank_value (rank_keys ! n) + int k \<and> ranks r = 1"
  then obtain r where r: "r \<in> set rank_keys" "rank_value r = rank_value (rank_keys ! n) + int k"
    "ranks r = 1" by blast
  from r(1) obtain m where m: "m < length rank_keys" "rank_keys ! m = r"
    unfolding in_set_conv_nth by blast
  have m13: "m < 13" using m(1) by (simp add: rank_keys_def)
  have "int m + 2 = int n + 2 + int k"
    using r(2) rank_value_nth[OF m13] rank_value_nth[OF n] m(2) by simp
  then have "m = n + k" by simp
  with m13 m(2) r(3) show "n + k < 13 \<and> ranks (rank_keys ! (n + k)) = 1" by simp
next
  assume a: "n + k < 13 \<and> ranks (rank_keys ! (n + k)) = 1"
  then have "rank_keys ! (n + k) \<in> set rank_keys" by (intro nth_mem) (simp add: rank_keys_def)
  moreover have "rank_value (rank_keys ! (n + k)) = rank_value (rank_keys ! n) + int k"
    using a rank_value_nth[of "n + k"] rank_value_nth[OF n] by simp
  ultimately show "\<exists>r\<in>set rank_keys. rank_value r = rank_value (rank_keys ! n) + int k \<and> ranks r = 1"
    using a by blast
qed

lemma all_less_5: "(\<forall>i<5::nat. R i) = (R 0 \<and> R 1 \<and> R 2 \<and> R 3 \<and> R 4)"
proof
  assume "\<forall>i<5. R i"
  then show "R 0 \<and> R 1 \<and> R 2 \<and> R 3 \<and> R 4" by simp
next
  assume a: "R 0 \<and> R 1 \<and> R 2 \<and> R 3 \<and> R 4"
  show "\<forall>i<5. R i"
  proof (intro allI impI)
    fix i :: nat assume "i < 5"
    then have "i = 0 \<or> i = 1 \<or> i = 2 \<or> i = 3 \<or> i = 4" by arith
    with a show "R i" by blast
  qed
qed

lemma straight_spec_iff:
  "straight_spec ranks =
    (\<exists>n. n + 5 \<le> 13 \<and> (\<forall>i<n. ranks (rank_keys ! i) \<noteq> 1) \<and> (\<forall>i<5. ranks (rank_keys ! (n + i)) = 1))"
proof (cases "find (\<lambda>r. ranks r = 1) rank_keys")
  case None
  then have no: "\<forall>r\<in>set rank_keys. ranks r \<noteq> 1" by (auto simp: find_None_iff)
  have "\<not> (\<exists>n. n + 5 \<le> 13 \<and> (\<forall>i<n. ranks (rank_keys ! i) \<noteq> 1) \<and> (\<forall>i<5. ranks (rank_keys ! (n + i)) = 1))"
  proof
    assume "\<exists>n. n + 5 \<le> 13 \<and> (\<forall>i<n. ranks (rank_keys ! i) \<noteq> 1) \<and> (\<forall>i<5. ranks (rank_keys ! (n + i)) = 1)"
    then obtain n where n: "n + 5 \<le> 13" "\<forall>i<5. ranks (rank_keys ! (n + i)) = 1" by blast
    have "ranks (rank_keys ! n) = 1" using n(2)[rule_format, of 0] by simp
    moreover have "rank_keys ! n \<in> set rank_keys" using n(1) by (intro nth_mem) (simp add: rank_keys_def)
    ultimately show False using no by blast
  qed
  with None show ?thesis by (simp add: straight_spec_def)
next
  case (Some anchor)
  then obtain n where n: "n < length rank_keys" "ranks (rank_keys ! n) = 1" "anchor = rank_keys ! n"
    "\<forall>j<n. ranks (rank_keys ! j) \<noteq> 1"
    unfolding find_Some_iff by blast
  have n13: "n < 13" using n(1) by (simp add: rank_keys_def)
  have off: "(\<exists>r\<in>set rank_keys. rank_value r = rank_value anchor + int k \<and> ranks r = 1)
         = (n + k < 13 \<and> ranks (rank_keys ! (n + k)) = 1)" for k
    unfolding n(3) by (rule rank_at_offset[OF n13])
  have "straight_spec ranks =
     ((n + 0 < 13 \<and> ranks (rank_keys ! (n + 0)) = 1) \<and> (n + 1 < 13 \<and> ranks (rank_keys ! (n + 1)) = 1)
      \<and> (n + 2 < 13 \<and> ranks (rank_keys ! (n + 2)) = 1) \<and> (n + 3 < 13 \<and> ranks (rank_keys ! (n + 3)) = 1)
      \<and> (n + 4 < 13 \<and> ranks (rank_keys ! (n + 4)) = 1))"
    using off[of 0] off[of 1] off[of 2] off[of 3] off[of 4] Some by (simp add: straight_spec_def)
  also have "\<dots> = (n + 5 \<le> 13 \<and> (\<forall>i<5. ranks (rank_keys ! (n + i)) = 1))"
    unfolding all_less_5 by auto
  finally have l: "straight_spec ranks = (n + 5 \<le> 13 \<and> (\<forall>i<5. ranks (rank_keys ! (n + i)) = 1))" .
  have uniq: "n' = n" if "\<forall>i<n'. ranks (rank_keys ! i) \<noteq> 1" "\<forall>i<5. ranks (rank_keys ! (n' + i)) = 1" for n'
  proof -
    have "ranks (rank_keys ! (n' + 0)) = 1" using that(2)[rule_format, of 0] by simp
    then have a: "ranks (rank_keys ! n') = 1" by simp
    have "\<not> n < n'" using that(1) n(2) by auto
    moreover have "\<not> n' < n" using n(4) a by auto
    ultimately show ?thesis by simp
  qed
  show ?thesis unfolding l using n(4) uniq by blast
qed

section \<open>Counting the cards of a hand\<close>

lemma select_category_if:
  "select_category m =
    (if m royal_flush then (Fin 1000, Some royal_flush)
     else if m straight_flush then (Fin 900, Some straight_flush)
     else if m four_of_a_kind then (Fin 800, Some four_of_a_kind)
     else if m full_house then (Fin 700, Some full_house)
     else if m flush then (Fin 600, Some flush)
     else if m straight then (Fin 500, Some straight)
     else if m three_of_a_kind then (Fin 400, Some three_of_a_kind)
     else if m two_pairs then (Fin 300, Some two_pairs)
     else if m pair then (Fin 200, Some pair)
     else if m high_card then (Fin 100, Some high_card)
     else if m win_via_fold then (Fin 0, Some win_via_fold)
     else (Fin 0, Some win_via_fold))"
  by (simp add: select_category_def category_keys_def Let_def)

lemma count_two_le: "a \<noteq> b \<Longrightarrow> count_list xs a + count_list xs b \<le> length xs"
  by (induction xs) auto

lemma length_count_rest: "length xs = count_list xs a + length (filter (\<lambda>x. x \<noteq> a) xs)"
  by (induction xs) auto

lemma count_list_filter: "P a \<Longrightarrow> count_list (filter P xs) a = count_list xs a"
  by (induction xs) auto

lemma count_positive: "(0 < count_list xs a) = (a \<in> set xs)"
  using count_list_0_iff[of xs a] by auto

lemma sum_counts: "sum_list (map (count_list xs) rank_keys) = length xs"
proof -
  have "sum_list (map (count_list xs) rank_keys) = sum (count_list xs) (set rank_keys)"
    using distinct_rank_keys by (rule sum_list_distinct_conv_sum_set)
  also have "\<dots> = length xs"
  proof (rule sum_count_set)
    show "set xs \<subseteq> set rank_keys" by (simp add: set_rank_keys)
    show "finite (set rank_keys)" by (rule finite_set)
  qed
  finally show ?thesis .
qed

lemma filter_times_le:
  fixes f :: "'a \<Rightarrow> nat"
  shows "n * length (filter (\<lambda>k. f k = n) ks) \<le> sum_list (map f ks)"
  by (induction ks) auto

lemma ones_plus_other_le:
  fixes f :: "'a \<Rightarrow> nat"
  assumes "r \<in> set ks" "f r \<noteq> 1"
  shows "length (filter (\<lambda>k. f k = 1) ks) + f r \<le> sum_list (map f ks)"
  using assms
proof (induction ks)
  case Nil
  then show ?case by simp
next
  case (Cons k ks)
  have base: "length (filter (\<lambda>k. f k = 1) ks) \<le> sum_list (map f ks)"
    using filter_times_le[of 1 f ks] by simp
  show ?case
  proof (cases "r \<in> set ks")
    case True
    with Cons have "length (filter (\<lambda>k. f k = 1) ks) + f r \<le> sum_list (map f ks)" by simp
    then show ?thesis by auto
  next
    case False
    with Cons.prems have "k = r" by simp
    with Cons.prems base show ?thesis by simp
  qed
qed

lemma filter_slice_le: "length (filter P (slice xs a b)) \<le> length (filter P xs)"
proof -
  have 1: "length (filter P (take n ys)) \<le> length (filter P ys)" for n and ys :: "'a list"
  proof -
    have "filter P ys = filter P (take n ys) @ filter P (drop n ys)"
      by (metis append_take_drop_id filter_append)
    then show ?thesis by simp
  qed
  have 2: "length (filter P (drop n ys)) \<le> length (filter P ys)" for n and ys :: "'a list"
  proof -
    have "filter P ys = filter P (take n ys) @ filter P (drop n ys)"
      by (metis append_take_drop_id filter_append)
    then show ?thesis by simp
  qed
  show ?thesis unfolding slice_def Let_def using 1 2 by (meson order_trans)
qed

lemma straight_five_singles:
  assumes "categoryMap suits ranks straight"
  shows "5 \<le> length (keys_with ranks 1)"
proof -
  have "5 \<le> length (filter (\<lambda>count. count = 1) (map ranks rank_keys))"
    using assms filter_slice_le[of "\<lambda>count. count = 1" "map ranks rank_keys"]
    unfolding cm_straight by (metis)
  then show ?thesis unfolding length_filter_counts .
qed

lemma single_list: "distinct ys \<Longrightarrow> set ys = {r} \<Longrightarrow> ys = [r]"
proof (cases ys)
  case Nil
  assume "set ys = {r}"
  with Nil show ?thesis by simp
next
  case (Cons y ys')
  assume d: "distinct ys" and s: "set ys = {r}"
  from s Cons have y: "y = r" by auto
  from d Cons y have "r \<notin> set ys'" by simp
  moreover from s Cons have "set ys' \<subseteq> {r}" by auto
  ultimately have "ys' = []" by (cases ys') auto
  with Cons y show ?thesis by simp
qed

text \<open>Four cards of one rank among five.\<close>

lemma quad_facts:
  assumes len: "length h = 5" and quad: "count_list (map rank h) r = 4"
  shows "keys_with (count_list (map rank h)) 4 = [r]"
    and "\<not> categoryMap suits (count_list (map rank h)) straight"
    and "categoryMap suits (count_list (map rank h)) full_house"
proof -
  let ?xs = "map rank h"
  let ?cnt = "count_list ?xs"
  have l: "length ?xs = 5" using len by simp
  have other: "?cnt k \<le> 1" if "k \<noteq> r" for k
    using count_two_le[OF that, of ?xs] quad l by simp
  have "k = r" if "?cnt k = 4" for k
  proof (rule ccontr)
    assume "k \<noteq> r"
    from other[OF this] that show False by simp
  qed
  then have "set (keys_with ?cnt 4) = {r}"
    unfolding set_keys_with using quad by blast
  then show "keys_with ?cnt 4 = [r]" by (rule single_list[OF distinct_keys_with])
  show "\<not> categoryMap suits ?cnt straight"
  proof
    assume "categoryMap suits ?cnt straight"
    then have "5 \<le> length (filter (\<lambda>k. ?cnt k = 1) rank_keys)"
      using straight_five_singles[of suits ?cnt] by (simp add: keys_with_def)
    moreover have "length (filter (\<lambda>k. ?cnt k = 1) rank_keys) + ?cnt r \<le> sum_list (map ?cnt rank_keys)"
      by (rule ones_plus_other_le) (simp_all add: set_rank_keys quad)
    ultimately show False using quad l by (simp add: sum_counts)
  qed
  have "length (filter (\<lambda>x. x \<noteq> r) ?xs) = 1"
    using length_count_rest[of ?xs r] quad l by simp
  then obtain q where q: "filter (\<lambda>x. x \<noteq> r) ?xs = [q]" using length1_list by blast
  then have "q \<in> set (filter (\<lambda>x. x \<noteq> r) ?xs)" by simp
  then have qr: "q \<noteq> r" and qin: "q \<in> set ?xs" by auto
  have rin: "r \<in> set ?xs" using quad count_positive[of ?xs r] by simp
  have "set ?xs = {r, q}"
  proof
    show "set ?xs \<subseteq> {r, q}"
    proof
      fix x assume x: "x \<in> set ?xs"
      show "x \<in> {r, q}"
      proof (cases "x = r")
        case True
        then show ?thesis by simp
      next
        case False
        with x have "x \<in> set (filter (\<lambda>x. x \<noteq> r) ?xs)" by simp
        with q show ?thesis by simp
      qed
    qed
    show "{r, q} \<subseteq> set ?xs" using rin qin by simp
  qed
  then have "{k. ?cnt k \<noteq> 0} = {r, q}" using count_list_0_iff[of ?xs] by auto
  then have "length (filter (\<lambda>key. ?cnt key \<noteq> 0) rank_keys) = card {r, q}"
    using distinct_length_filter[OF distinct_rank_keys, of "\<lambda>key. ?cnt key \<noteq> 0"]
    by (simp add: set_rank_keys)
  also have "\<dots> = 2" using qr by simp
  finally show "categoryMap suits ?cnt full_house" by (simp add: cm_full_house)
qed

lemma count_all_same: "\<forall>c\<in>set h. f c = s \<Longrightarrow> count_list (map f h) s = length h"
  by (induction h) auto

lemma sum_values_mset:
  "sum_list (map (\<lambda>c. rank_value (rank c)) h) = sum_mset (image_mset rank_value (mset (map rank h)))"
proof -
  have "sum_list (map (\<lambda>c. rank_value (rank c)) h) = sum_list (map rank_value (map rank h))"
    by (simp add: comp_def)
  also have "\<dots> = sum_mset (mset (map rank_value (map rank h)))"
    by (simp only: sum_mset_sum_list)
  also have "\<dots> = sum_mset (image_mset rank_value (mset (map rank h)))"
    by (simp only: mset_map)
  finally show ?thesis .
qed

lemma category_flag:
  assumes "hand p = Some h" and "rankHand p = Inr r"
  shows "\<exists>j<10. category r = Some (priority_order ! j)
           \<and> categoryMap (count_list (map suit h)) (count_list (map rank h)) (priority_order ! j)
           \<and> (\<forall>i<j. \<not> categoryMap (count_list (map suit h)) (count_list (map rank h)) (priority_order ! i))"
  using rankHand_present[OF assms(1)] assms(2) by auto

lemma royal_result:
  assumes "hand p = Some h"
    and "mset (map rank h) = mset [R10, R11, R12, R13, R14]"
    and "\<forall>c\<in>set h. suit c = s"
  shows "rankHand p = Inr \<lparr>player = p, category = Some royal_flush, score = Fin 1060\<rparr>"
proof -
  let ?cnt = "count_list (map rank h)"
  let ?suits = "count_list (map suit h)"
  let ?m = "categoryMap ?suits ?cnt"
  have cnt: "?cnt k = count (mset [R10, R11, R12, R13, R14]) k" for k
    using assms(2) by (metis count_mset)
  have vals: "map ?cnt rank_keys = [0, 0, 0, 0, 0, 0, 0, 0, 1, 1, 1, 1, 1]"
    by (simp add: rank_keys_def cnt)
  have f: "firstCardIndex ?cnt = 8"
    unfolding firstCardIndex_def vals by simp
  have st: "?m straight"
    unfolding cm_straight f vals by (simp add: slice_def)
  have "length h = size (mset (map rank h))" by simp
  also have "\<dots> = 5" unfolding assms(2) by simp
  finally have len: "length h = 5" .
  have "?suits s = 5" using count_all_same[OF assms(3)] len by simp
  then have fl: "?m flush" unfolding cm_flush by blast
  have "?m royal_flush" by (simp add: cm_royal_flush cm_straight_flush st fl f)
  then have sel: "select_category ?m = (Fin 1000, Some royal_flush)"
    by (simp add: select_category_if)
  have sum: "sum_list (map (\<lambda>c. rank_value (rank c)) h) = 60"
    unfolding sum_values_mset assms(2) by simp
  show ?thesis unfolding rankHand_sum[OF assms(1) sel, simplified] sum by simp
qed

section \<open>Scores of five cards\<close>

lemma rankHand_select:
  assumes "hand p = Some h" and "rankHand p = Inr r"
  shows "\<exists>s. select_category (categoryMap (count_list (map suit h)) (count_list (map rank h)))
              = (s, category r)"
proof -
  obtain s0 cat where sel:
    "select_category (categoryMap (count_list (map suit h)) (count_list (map rank h))) = (s0, cat)"
    by (cases "select_category (categoryMap (count_list (map suit h)) (count_list (map rank h)))")
  from assms(2) have "category r = cat"
    unfolding rankHand_Some[OF assms(1) sel] by (auto split: sum.splits)
  with sel show ?thesis by blast
qed

lemma select_two_pairs:
  assumes "select_category m = (s, Some two_pairs)"
  shows "s = Fin 300 \<and> m two_pairs \<and> \<not> m three_of_a_kind \<and> \<not> m four_of_a_kind \<and> \<not> m full_house"
  using assms by (simp add: select_category_if split: if_splits)

lemma select_pair:
  assumes "select_category m = (s, Some pair)"
  shows "s = Fin 200 \<and> m pair \<and> \<not> m two_pairs \<and> \<not> m three_of_a_kind \<and> \<not> m four_of_a_kind"
  using assms by (simp add: select_category_if split: if_splits)

lemma select_high_card:
  assumes "select_category m = (s, Some high_card)"
  shows "s = Fin 100 \<and> \<not> m pair \<and> \<not> m two_pairs \<and> \<not> m three_of_a_kind \<and> \<not> m four_of_a_kind"
  using assms by (simp add: select_category_if split: if_splits)

text \<open>Five cards, one rank twice, no rank three or four times, no second pair.\<close>

lemma pair_has_single:
  assumes len: "length xs = 5" and k: "keys_with (count_list xs) 2 = [k]"
    and no3: "keys_with (count_list xs) 3 = []" and no4: "keys_with (count_list xs) 4 = []"
  shows "\<exists>q. count_list xs q = 1"
proof -
  let ?cnt = "count_list xs"
  have "k \<in> set (keys_with ?cnt 2)" using k by simp
  then have ck: "?cnt k = 2" by (simp add: set_keys_with)
  have only: "q = k" if "?cnt q = 2" for q
  proof -
    from that have "q \<in> set (keys_with ?cnt 2)" by (simp add: set_keys_with)
    with k show ?thesis by simp
  qed
  have "length (filter (\<lambda>x. x \<noteq> k) xs) = 3"
    using length_count_rest[of xs k] ck len by simp
  then obtain a where "a \<in> set (filter (\<lambda>x. x \<noteq> k) xs)"
    by (cases "filter (\<lambda>x. x \<noteq> k) xs") auto
  then have a: "a \<in> set xs" "a \<noteq> k" by auto
  have "0 < ?cnt a" using a(1) by (simp add: count_positive)
  moreover have "?cnt a \<le> 3" using count_two_le[OF a(2), of xs] ck len by simp
  moreover have "?cnt a \<noteq> 2" using only a(2) by blast
  moreover have "?cnt a \<noteq> 3" using no3 keys_with_nonempty[of ?cnt 3] by auto
  ultimately have "?cnt a = 1" by arith
  then show ?thesis by blast
qed

lemma two_pairs_has_single:
  assumes len: "length xs = 5" and k: "keys_with (count_list xs) 2 = [k0, k1]"
  shows "\<exists>q. count_list xs q = 1"
proof -
  let ?cnt = "count_list xs"
  have d: "k0 \<noteq> k1" using distinct_keys_with[of ?cnt 2] k by simp
  have "k0 \<in> set (keys_with ?cnt 2)" "k1 \<in> set (keys_with ?cnt 2)" using k by simp_all
  then have c: "?cnt k0 = 2" "?cnt k1 = 2" by (simp_all add: set_keys_with)
  let ?rest = "filter (\<lambda>x. x \<noteq> k0) xs"
  have r3: "length ?rest = 3" using length_count_rest[of xs k0] c(1) len by simp
  have "count_list ?rest k1 = 2" using count_list_filter[of "\<lambda>x. x \<noteq> k0" k1 xs] d c(2) by simp
  then have "length (filter (\<lambda>x. x \<noteq> k1) ?rest) = 1"
    using length_count_rest[of ?rest k1] r3 by simp
  then obtain a where a: "filter (\<lambda>x. x \<noteq> k1) ?rest = [a]" using length1_list by blast
  then have "a \<in> set (filter (\<lambda>x. x \<noteq> k1) ?rest)" by simp
  then have an: "a \<noteq> k1" "a \<noteq> k0" by auto
  have "count_list (filter (\<lambda>x. x \<noteq> k1) ?rest) a = count_list ?rest a"
    using count_list_filter[of "\<lambda>x. x \<noteq> k1" a ?rest] an by simp
  also have "\<dots> = ?cnt a" using count_list_filter[of "\<lambda>x. x \<noteq> k0" a xs] an by simp
  finally have "?cnt a = 1" unfolding a by simp
  then show ?thesis by blast
qed

lemma high_card_has_single:
  assumes len: "length xs = 5"
    and n2: "length (keys_with (count_list xs) 2) \<noteq> 1" "length (keys_with (count_list xs) 2) \<noteq> 2"
    and no3: "keys_with (count_list xs) 3 = []" and no4: "keys_with (count_list xs) 4 = []"
    and no5: "\<forall>k. count_list xs k \<noteq> 5"
  shows "\<exists>q. count_list xs q = 1"
proof -
  let ?cnt = "count_list xs"
  have "2 * length (keys_with ?cnt 2) \<le> sum_list (map ?cnt rank_keys)"
    unfolding keys_with_def by (rule filter_times_le)
  then have "2 * length (keys_with ?cnt 2) \<le> 5" using len by (simp add: sum_counts)
  with n2 have "length (keys_with ?cnt 2) = 0" by arith
  then have "keys_with ?cnt 2 = []" by simp
  then have no2: "?cnt q \<noteq> 2" for q using keys_with_nonempty[of ?cnt 2] by auto
  obtain a where a: "a \<in> set xs" using len by (cases xs) auto
  have "0 < ?cnt a" using a by (simp add: count_positive)
  moreover have "?cnt a \<le> 5" using count_le_length[of xs a] len by simp
  moreover have "?cnt a \<noteq> 3" using no3 keys_with_nonempty[of ?cnt 3] by auto
  moreover have "?cnt a \<noteq> 4" using no4 keys_with_nonempty[of ?cnt 4] by auto
  moreover have "?cnt a \<noteq> 5" using no5 by simp
  ultimately have "?cnt a = 1" using no2[of a] by arith
  then show ?thesis by blast
qed

lemma hand1_result:
  "rankHand (seat n (Some hand1)) =
     Inr \<lparr>player = seat n (Some hand1), category = Some pair, score = Fin 217\<rparr>"
proof -
  let ?cnt = "count_list (map rank hand1)"
  let ?m = "categoryMap (count_list (map suit hand1)) ?cnt"
  have h: "hand (seat n (Some hand1)) = Some hand1" by (simp add: seat_def)
  have vals: "map ?cnt rank_keys = [1, 0, 2, 0, 0, 1, 0, 1, 0, 0, 0, 0, 0]"
    by (simp add: hand1_def rank_keys_def)
  have k2: "keys_with ?cnt 2 = [R4]" by (simp add: keys_with_def hand1_def rank_keys_def)
  have k1: "keys_with ?cnt 1 = [R2, R7, R9]" by (simp add: keys_with_def hand1_def rank_keys_def)
  have k3: "keys_with ?cnt 3 = []" by (simp add: keys_with_def hand1_def rank_keys_def)
  have k4: "keys_with ?cnt 4 = []" by (simp add: keys_with_def hand1_def rank_keys_def)
  have f: "firstCardIndex ?cnt = 0" unfolding firstCardIndex_def vals by simp
  have st: "\<not> ?m straight" unfolding cm_straight f vals by (simp add: slice_def)
  have fh: "\<not> ?m full_house" unfolding cm_full_house by (simp add: hand1_def rank_keys_def)
  have fl: "\<not> ?m flush"
    unfolding categoryMap_def categoryMap0_def Let_def by (simp add: suit_keys_def hand1_def)
  have sel: "select_category ?m = (Fin 200, Some pair)"
    by (simp add: select_category_if cm_royal_flush cm_straight_flush st fh fl cm_four cm_three
        cm_two_pairs cm_pair k2 k3 k4)
  show ?thesis unfolding rankHand_pair[OF h sel k2] k1 by simp
qed

lemma hand2_result:
  "rankHand (seat n (Some hand2)) =
     Inr \<lparr>player = seat n (Some hand2), category = Some pair, score = Fin 219\<rparr>"
proof -
  let ?cnt = "count_list (map rank hand2)"
  let ?m = "categoryMap (count_list (map suit hand2)) ?cnt"
  have h: "hand (seat n (Some hand2)) = Some hand2" by (simp add: seat_def)
  have vals: "map ?cnt rank_keys = [1, 0, 2, 0, 0, 1, 0, 0, 0, 1, 0, 0, 0]"
    by (simp add: hand2_def rank_keys_def)
  have k2: "keys_with ?cnt 2 = [R4]" by (simp add: keys_with_def hand2_def rank_keys_def)
  have k1: "keys_with ?cnt 1 = [R2, R7, R11]" by (simp add: keys_with_def hand2_def rank_keys_def)
  have k3: "keys_with ?cnt 3 = []" by (simp add: keys_with_def hand2_def rank_keys_def)
  have k4: "keys_with ?cnt 4 = []" by (simp add: keys_with_def hand2_def rank_keys_def)
  have f: "firstCardIndex ?cnt = 0" unfolding firstCardIndex_def vals by simp
  have st: "\<not> ?m straight" unfolding cm_straight f vals by (simp add: slice_def)
  have fh: "\<not> ?m full_house" unfolding cm_full_house by (simp add: hand2_def rank_keys_def)
  have fl: "\<not> ?m flush"
    unfolding categoryMap_def categoryMap0_def Let_def by (simp add: suit_keys_def hand2_def)
  have sel: "select_category ?m = (Fin 200, Some pair)"
    by (simp add: select_category_if cm_royal_flush cm_straight_flush st fh fl cm_four cm_three
        cm_two_pairs cm_pair k2 k3 k4)
  show ?thesis unfolding rankHand_pair[OF h sel k2] k1 by simp
qed

lemma pair_result:
  assumes hp: "hand p = Some h" and len: "length h = 5"
    and r: "rankHand p = Inr r" and cat: "category r = Some pair"
  shows "\<exists>k. count_list (map rank h) k = 2
          \<and> (\<forall>k'. count_list (map rank h) k' = 2 \<longrightarrow> k' = k)
          \<and> (\<exists>q. count_list (map rank h) q = 1)
          \<and> score r = Fin (200 + 2 * rank_value k
                              + Max (rank_value ` {q. count_list (map rank h) q = 1}))"
proof -
  let ?cnt = "count_list (map rank h)"
  let ?m = "categoryMap (count_list (map suit h)) ?cnt"
  from rankHand_select[OF hp r] cat obtain s where sel0: "select_category ?m = (s, Some pair)"
    by auto
  from select_pair[OF sel0] have s: "s = Fin 200" and fl: "?m pair" "\<not> ?m three_of_a_kind"
    "\<not> ?m four_of_a_kind" by simp_all
  have sel: "select_category ?m = (Fin 200, Some pair)" using sel0 s by simp
  from fl(1) obtain k where k: "keys_with ?cnt 2 = [k]"
    unfolding cm_pair using length1_list by blast
  have no3: "keys_with ?cnt 3 = []" using fl(2) by (simp add: cm_three)
  have no4: "keys_with ?cnt 4 = []" using fl(3) by (simp add: cm_four)
  have "set (keys_with ?cnt 2) = {k}" using k by simp
  then have two: "{q. ?cnt q = 2} = {k}" by (simp add: set_keys_with)
  then have ck: "?cnt k = 2" and only: "\<forall>k'. ?cnt k' = 2 \<longrightarrow> k' = k" by auto
  have single: "\<exists>q. ?cnt q = 1"
    by (rule pair_has_single[OF _ k no3 no4]) (simp add: len)
  then have ne: "keys_with ?cnt 1 \<noteq> []" by (simp add: keys_with_nonempty)
  have "score r = Fin (200 + rank_value k * 2 + Max (rank_value ` set (keys_with ?cnt 1)))"
    using r ne unfolding rankHand_pair[OF hp sel k] by auto
  then have "score r = Fin (200 + 2 * rank_value k + Max (rank_value ` {q. ?cnt q = 1}))"
    by (simp add: set_keys_with)
  with ck only single show ?thesis by blast
qed

lemma kicker_defined:
  assumes hp: "hand p = Some h" and len: "length h = 5"
    and r: "rankHand p = Inr r"
    and cat: "category r = Some two_pairs \<or> category r = Some pair
              \<or> (category r = Some high_card \<and> (\<forall>k. count_list (map rank h) k \<noteq> 5))"
  shows "(\<exists>q. count_list (map rank h) q = 1)
         \<and> (category r = Some pair \<longrightarrow> (\<exists>k. keys_with (count_list (map rank h)) 2 = [k]))"
proof -
  let ?cnt = "count_list (map rank h)"
  let ?m = "categoryMap (count_list (map suit h)) ?cnt"
  have l: "length (map rank h) = 5" using len by simp
  from rankHand_select[OF hp r] obtain s where sel: "select_category ?m = (s, category r)"
    by blast
  from cat consider (tp) "category r = Some two_pairs" | (pr) "category r = Some pair"
    | (hc) "category r = Some high_card" "\<forall>k. ?cnt k \<noteq> 5" by blast
  then show ?thesis
  proof cases
    case tp
    with sel select_two_pairs[of ?m s] have "?m two_pairs" by simp
    then obtain k0 k1 where "keys_with ?cnt 2 = [k0, k1]"
      unfolding cm_two_pairs using length2_list by blast
    from two_pairs_has_single[OF l this] tp show ?thesis by simp
  next
    case pr
    with sel select_pair[of ?m s] have fl: "?m pair" "\<not> ?m three_of_a_kind"
      "\<not> ?m four_of_a_kind" by simp_all
    from fl(1) obtain k where k: "keys_with ?cnt 2 = [k]"
      unfolding cm_pair using length1_list by blast
    have no3: "keys_with ?cnt 3 = []" using fl(2) by (simp add: cm_three)
    have no4: "keys_with ?cnt 4 = []" using fl(3) by (simp add: cm_four)
    from pair_has_single[OF l k no3 no4] k show ?thesis by simp
  next
    case hc
    with sel select_high_card[of ?m s] have fl: "\<not> ?m pair" "\<not> ?m two_pairs"
      "\<not> ?m three_of_a_kind" "\<not> ?m four_of_a_kind" by simp_all
    have n2: "length (keys_with ?cnt 2) \<noteq> 1" "length (keys_with ?cnt 2) \<noteq> 2"
      using fl(1,2) by (simp_all add: cm_pair cm_two_pairs)
    have no3: "keys_with ?cnt 3 = []" using fl(3) by (simp add: cm_three)
    have no4: "keys_with ?cnt 4 = []" using fl(4) by (simp add: cm_four)
    from high_card_has_single[OF l n2 no3 no4 hc(2)] hc(1) show ?thesis by simp
  qed
qed

lemma sum_values_counts:
  "sum_list (map rank_value xs) =
     2 * int (count_list xs R2) + 3 * int (count_list xs R3) + 4 * int (count_list xs R4)
     + 5 * int (count_list xs R5) + 6 * int (count_list xs R6) + 7 * int (count_list xs R7)
     + 8 * int (count_list xs R8) + 9 * int (count_list xs R9) + 10 * int (count_list xs R10)
     + 11 * int (count_list xs R11) + 12 * int (count_list xs R12) + 13 * int (count_list xs R13)
     + 14 * int (count_list xs R14)"
proof (induction xs)
  case Nil
  then show ?case by simp
next
  case (Cons x xs)
  then show ?case by (cases x) simp_all
qed

lemma length_counts:
  "length xs =
     count_list xs R2 + count_list xs R3 + count_list xs R4 + count_list xs R5 + count_list xs R6
     + count_list xs R7 + count_list xs R8 + count_list xs R9 + count_list xs R10
     + count_list xs R11 + count_list xs R12 + count_list xs R13 + count_list xs R14"
  using sum_counts[of xs] by (simp add: rank_keys_def)

lemma sum_values_le: "sum_list (map (\<lambda>c. rank_value (rank c)) h) \<le> 14 * int (length h)"
proof (induction h)
  case Nil
  then show ?case by simp
next
  case (Cons c h)
  then show ?case using rank_value_bounds[of "rank c"] by simp
qed

lemma Max_value_le:
  assumes "ks \<noteq> []"
  shows "Max (rank_value ` set ks) \<le> 14"
proof -
  have "Max (rank_value ` set ks) \<in> rank_value ` set ks"
    using assms by (intro Max_in) simp_all
  then show ?thesis using rank_value_bounds by auto
qed

lemma royal_sum:
  assumes len: "length h = 5"
    and rf: "categoryMap suits (count_list (map rank h)) royal_flush"
  shows "sum_list (map (\<lambda>c. rank_value (rank c)) h) = 60"
proof -
  let ?xs = "map rank h"
  let ?cnt = "count_list ?xs"
  from rf have f: "firstCardIndex ?cnt = 8" and st: "categoryMap suits ?cnt straight"
    by (simp_all add: cm_royal_flush cm_straight_flush)
  have sl: "slice (map ?cnt rank_keys) 8 (8 + 5) = [?cnt R10, ?cnt R11, ?cnt R12, ?cnt R13, ?cnt R14]"
    by (simp add: slice_def rank_keys_def)
  have "length (filter (\<lambda>count. count = 1) [?cnt R10, ?cnt R11, ?cnt R12, ?cnt R13, ?cnt R14]) = 5"
    using st unfolding cm_straight f sl .
  then have "\<forall>y\<in>set [?cnt R10, ?cnt R11, ?cnt R12, ?cnt R13, ?cnt R14]. y = 1"
    using filter_all_five[of "[?cnt R10, ?cnt R11, ?cnt R12, ?cnt R13, ?cnt R14]" "\<lambda>count. count = 1"]
    by simp
  then have ones: "?cnt R10 = 1" "?cnt R11 = 1" "?cnt R12 = 1" "?cnt R13 = 1" "?cnt R14 = 1"
    by simp_all
  have "length ?xs = 5" using len by simp
  then have zeros: "?cnt R2 = 0" "?cnt R3 = 0" "?cnt R4 = 0" "?cnt R5 = 0" "?cnt R6 = 0"
    "?cnt R7 = 0" "?cnt R8 = 0" "?cnt R9 = 0"
    using length_counts[of ?xs] ones by simp_all
  have "sum_list (map (\<lambda>c. rank_value (rank c)) h) = sum_list (map rank_value ?xs)"
    by (simp add: comp_def)
  also have "\<dots> = 60" unfolding sum_values_counts ones zeros by simp
  finally show ?thesis .
qed

lemma score_le_1060:
  assumes hp: "hand p = Some h" and len: "length h = 5" and r: "rankHand p = Inr r"
  shows "score r = NegInfinity \<or> (\<exists>n. score r = Fin n \<and> n \<le> 1060)"
proof -
  let ?cnt = "count_list (map rank h)"
  let ?m = "categoryMap (count_list (map suit h)) ?cnt"
  let ?sum = "sum_list (map (\<lambda>c. rank_value (rank c)) h)"
  have s70: "?sum \<le> 70" using sum_values_le[of h] len by simp
  from rankHand_present[OF hp] obtain j where j: "j < 10" and mj: "?m (priority_order ! j)"
    and sel: "select_category ?m = (Fin (1000 - int j * 100), Some (priority_order ! j))"
    by blast
  show ?thesis
  proof (cases rule: priority_cases[OF j])
    case 1
    have "?sum = 60" using royal_sum[OF len] mj 1 by simp
    with rankHand_sum[OF hp sel] 1 r show ?thesis by auto
  next
    case 2
    with rankHand_sum[OF hp sel] r s70 show ?thesis by auto
  next
    case 3
    from mj 3 have ne: "keys_with ?cnt 4 \<noteq> []" by (simp add: cm_four)
    have "rank_value (hd (keys_with ?cnt 4)) \<le> 14" using rank_value_bounds by simp
    with rankHand_four[OF hp _ ne] sel 3 r show ?thesis by auto
  next
    case 4
    with rankHand_sum[OF hp sel] r s70 show ?thesis by auto
  next
    case 5
    with rankHand_sum[OF hp sel] r s70 show ?thesis by auto
  next
    case 6
    with rankHand_sum[OF hp sel] r s70 show ?thesis by auto
  next
    case 7
    from mj 7 have ne: "keys_with ?cnt 3 \<noteq> []" by (simp add: cm_three)
    have "rank_value (hd (keys_with ?cnt 3)) \<le> 14" using rank_value_bounds by simp
    with rankHand_three[OF hp _ ne] sel 7 r show ?thesis by auto
  next
    case 8
    from mj 8 have "length (keys_with ?cnt 2) = 2" by (simp add: cm_two_pairs)
    then obtain k0 k1 where k: "keys_with ?cnt 2 = [k0, k1]" using length2_list by blast
    have b: "rank_value k0 \<le> 14" "rank_value k1 \<le> 14" using rank_value_bounds by simp_all
    show ?thesis
    proof (cases "keys_with ?cnt 1 = []")
      case True
      with rankHand_two_pairs[OF hp _ k] sel 8 r show ?thesis by auto
    next
      case False
      have mx: "Max (rank_value ` set (keys_with ?cnt 1)) \<le> 14" by (rule Max_value_le[OF False])
      have "score r = Fin (300 + (rank_value k0 * 2 + rank_value k1 * 2)
                            + Max (rank_value ` set (keys_with ?cnt 1)))"
        using rankHand_two_pairs[OF hp _ k] sel 8 r False by auto
      moreover have "300 + (rank_value k0 * 2 + rank_value k1 * 2)
                            + Max (rank_value ` set (keys_with ?cnt 1)) \<le> 1060"
        using mx b by arith
      ultimately show ?thesis by blast
    qed
  next
    case 9
    from mj 9 have "length (keys_with ?cnt 2) = 1" by (simp add: cm_pair)
    then obtain k where k: "keys_with ?cnt 2 = [k]" using length1_list by blast
    have b: "rank_value k \<le> 14" using rank_value_bounds by simp
    show ?thesis
    proof (cases "keys_with ?cnt 1 = []")
      case True
      with rankHand_pair[OF hp _ k] sel 9 r show ?thesis by auto
    next
      case False
      have mx: "Max (rank_value ` set (keys_with ?cnt 1)) \<le> 14" by (rule Max_value_le[OF False])
      have "score r = Fin (200 + rank_value k * 2 + Max (rank_value ` set (keys_with ?cnt 1)))"
        using rankHand_pair[OF hp _ k] sel 9 r False by auto
      moreover have "200 + rank_value k * 2 + Max (rank_value ` set (keys_with ?cnt 1)) \<le> 1060"
        using mx b by arith
      ultimately show ?thesis by blast
    qed
  next
    case 10
    show ?thesis
    proof (cases "keys_with ?cnt 1 = []")
      case True
      with rankHand_high_card[OF hp] sel 10 r show ?thesis by auto
    next
      case False
      have mx: "Max (rank_value ` set (keys_with ?cnt 1)) \<le> 14" by (rule Max_value_le[OF False])
      have "score r = Fin (100 + Max (rank_value ` set (keys_with ?cnt 1)))"
        using rankHand_high_card[OF hp] sel 10 r False by auto
      moreover have "100 + Max (rank_value ` set (keys_with ?cnt 1)) \<le> 1060"
        using mx by arith
      ultimately show ?thesis by blast
    qed
  qed
qed

lemma count_list_map: "count_list (map f xs) y = length (filter (\<lambda>x. f x = y) xs)"
  by (induction xs) auto

lemma card_suits: "card (UNIV :: suit set) = 4"
proof -
  have "card (set suit_keys) = length suit_keys"
    by (rule distinct_card) (simp add: suit_keys_def)
  also have "\<dots> = 4" by (simp add: suit_keys_def)
  finally show ?thesis unfolding set_suit_keys .
qed

text \<open>Among distinct cards a rank occurs at most four times: once per suit.\<close>

lemma distinct_rank_count:
  fixes h :: "card list"
  assumes "distinct h"
  shows "count_list (map rank h) k \<le> 4"
proof -
  let ?cs = "filter (\<lambda>c. rank c = k) h"
  have d: "distinct ?cs" using assms by simp
  have "inj_on suit (set ?cs)"
  proof (rule inj_onI)
    fix c c' :: card
    assume "c \<in> set ?cs" "c' \<in> set ?cs" "suit c = suit c'"
    then show "c = c'" by simp
  qed
  with d have "distinct (map suit ?cs)" by (simp add: distinct_map)
  from distinct_card[OF this] have "length ?cs = card (set (map suit ?cs))"
    by (simp only: length_map)
  also have "\<dots> \<le> card (UNIV :: suit set)"
  proof (rule card_mono)
    show "finite (UNIV :: suit set)" unfolding set_suit_keys[symmetric] by (rule finite_set)
    show "set (map suit ?cs) \<subseteq> UNIV" by simp
  qed
  finally have "length ?cs \<le> 4" by (simp only: card_suits)
  then show ?thesis by (simp add: count_list_map)
qed

lemma royal_hand_result:
  "rankHand (seat n (Some royal_hand)) =
     Inr \<lparr>player = seat n (Some royal_hand), category = Some royal_flush, score = Fin 1060\<rparr>"
proof -
  have a: "hand (seat n (Some royal_hand)) = Some royal_hand" by (simp add: seat_def)
  have b: "mset (map rank royal_hand) = mset [R10, R11, R12, R13, R14]" by (simp add: royal_hand_def)
  have c: "\<forall>c\<in>set royal_hand. suit c = hearts" by (simp add: royal_hand_def)
  show ?thesis by (rule royal_result[OF a b c])
qed

text \<open>A round of three players: the better kicker first, equal scores in input order.\<close>

lemma example_round:
  "compareHands [seat 1 (Some hand1), seat 2 (Some hand2), seat 3 (Some hand1)] =
     Inr [\<lparr>player = seat 2 (Some hand2), category = Some pair, score = Fin 219\<rparr>,
          \<lparr>player = seat 1 (Some hand1), category = Some pair, score = Fin 217\<rparr>,
          \<lparr>player = seat 3 (Some hand1), category = Some pair, score = Fin 217\<rparr>]"
  by (simp add: compareHands_def hand1_result hand2_result js_sort_def js_sub_def)

section \<open>The category of a hand\<close>

text \<open>
  Claim C3. For every hand that is present (of five cards or any other number),
  \<open>rankHand\<close> returns a result whose category is one of the ten in-hand categories, the
  one at index \<open>j\<close> of the priority order, never "win via fold". It is the first key of
  that order whose flag is true, the flag of "high card" is always true, and the
  score after the selection is \<open>1000 - 100 * j\<close>.
\<close>

theorem rankHand_category:
  assumes "hand p = Some h"
  shows "\<exists>j r. j < 10 \<and> rankHand p = Inr r
           \<and> category r = Some (priority_order ! j)
           \<and> category r \<noteq> Some win_via_fold
           \<and> select_category (categoryMap (fst (tally h)) (snd (tally h)))
               = (Fin (1000 - 100 * int j), Some (priority_order ! j))
           \<and> categoryMap (fst (tally h)) (snd (tally h)) (priority_order ! j)
           \<and> (\<forall>i<j. \<not> categoryMap (fst (tally h)) (snd (tally h)) (priority_order ! i))
           \<and> categoryMap (fst (tally h)) (snd (tally h)) high_card
           \<and> (\<forall>r' c'. rankHand p = Inr r' \<and> category r' = Some c' \<longrightarrow> c' = priority_order ! j)"
proof -
  let ?m = "categoryMap (count_list (map suit h)) (count_list (map rank h))"
  from rankHand_present[OF assms] obtain j s where
    j: "j < 10" "?m (priority_order ! j)" "\<forall>i<j. \<not> ?m (priority_order ! i)"
    "select_category ?m = (Fin (1000 - int j * 100), Some (priority_order ! j))"
    "rankHand p = Inr \<lparr>player = p, category = Some (priority_order ! j), score = s\<rparr>"
    by blast
  have nf: "priority_order ! j \<noteq> win_via_fold"
    using j(2) cm_win_via_fold[of "count_list (map suit h)" "count_list (map rank h)"] by auto
  have hc: "?m high_card" by (rule categoryMap_high_card)
  have e: "1000 - 100 * int j = 1000 - int j * 100" by simp
  show ?thesis
    unfolding tally_count fst_conv snd_conv e
    using j nf hc
    by (intro exI[of _ j] exI[of _ "\<lparr>player = p, category = Some (priority_order ! j), score = s\<rparr>"])
      auto
qed

theorem rankHand_category_witness:
  "\<exists>j r. j < 10 \<and> rankHand (seat 1 (Some hand1)) = Inr r
           \<and> category r = Some (priority_order ! j)
           \<and> category r \<noteq> Some win_via_fold
           \<and> select_category (categoryMap (fst (tally hand1)) (snd (tally hand1)))
               = (Fin (1000 - 100 * int j), Some (priority_order ! j))
           \<and> categoryMap (fst (tally hand1)) (snd (tally hand1)) (priority_order ! j)
           \<and> (\<forall>i<j. \<not> categoryMap (fst (tally hand1)) (snd (tally hand1)) (priority_order ! i))
           \<and> categoryMap (fst (tally hand1)) (snd (tally hand1)) high_card
           \<and> (\<forall>r' c'. rankHand (seat 1 (Some hand1)) = Inr r' \<and> category r' = Some c'
                 \<longrightarrow> c' = priority_order ! j)"
proof -
  have a: "hand (seat 1 (Some hand1)) = Some hand1" by (simp add: seat_def)
  show ?thesis by (rule rankHand_category[OF a])
qed

section \<open>The round comparator\<close>

text \<open>
  Claim C2. On a list of exactly one player, \<open>compareHands\<close> returns the one-element list
  whose entry has category "win via fold" and score 10000. The equation holds for every
  player, whatever the hand is and also when it is absent: the hand is never read and
  no error is possible.
\<close>

theorem compareHands_single:
  "compareHands [p] = Inr [\<lparr>player = p, category = Some win_via_fold, score = Fin 10000\<rparr>]"
  by (simp add: compareHands_def)

text \<open>
  Claim C8. \<open>rankHand\<close> fails exactly when the hand is absent, and then with the internal
  server error; \<open>compareHands\<close> on two or more players fails exactly when some hand is
  absent, returns a list when every hand is present, and the internal server error is
  the only error it can fail with (the \<open>TypeError\<close> of the \<open>reduce\<close> is unreachable).
\<close>

theorem rankHand_error_iff:
  "(rankHand p = Inl e \<longleftrightarrow>
      hand p = None \<and> e = InternalServerErrorException ''Attempting to rank a non-existant hand!'')
   \<and> (2 \<le> length players \<longrightarrow>
        ((\<exists>e'. compareHands players = Inl e') \<longleftrightarrow> (\<exists>q\<in>set players. hand q = None))
        \<and> ((\<forall>q\<in>set players. hand q \<noteq> None) \<longrightarrow> (\<exists>rs. compareHands players = Inr rs))
        \<and> (\<forall>e'. compareHands players = Inl e' \<longrightarrow>
              e' = InternalServerErrorException ''Attempting to rank a non-existant hand!''))"
proof -
  have one: "rankHand p = Inl e \<longleftrightarrow>
      hand p = None \<and> e = InternalServerErrorException ''Attempting to rank a non-existant hand!''"
  proof (cases "hand p")
    case None
    then show ?thesis by (auto simp: rankHand_absent)
  next
    case (Some h)
    with rankHand_Inr_iff[of p] show ?thesis by auto
  qed
  have two: "((\<exists>e'. compareHands players = Inl e') \<longleftrightarrow> (\<exists>q\<in>set players. hand q = None))
        \<and> ((\<forall>q\<in>set players. hand q \<noteq> None) \<longrightarrow> (\<exists>rs. compareHands players = Inr rs))
        \<and> (\<forall>e'. compareHands players = Inl e' \<longrightarrow>
              e' = InternalServerErrorException ''Attempting to rank a non-existant hand!'')"
    if len: "2 \<le> length players"
  proof -
    have cmp: "compareHands players =
      (case map_rankHand players of
         Inl e \<Rightarrow> Inl e
       | Inr rs \<Rightarrow> Inr (js_sort (\<lambda>handA handB. js_sub (score handB) (score handA)) rs))"
      using len by (simp add: compareHands_def)
    have a: "compareHands players = Inl e' \<Longrightarrow>
        e' = InternalServerErrorException ''Attempting to rank a non-existant hand!''
        \<and> (\<exists>q\<in>set players. hand q = None)" for e'
      using map_rankHand_Inl[of players e'] by (auto simp: cmp split: sum.splits)
    have b: "\<exists>rs. compareHands players = Inr rs" if "\<forall>q\<in>set players. hand q \<noteq> None"
      using map_rankHand_total[OF that] by (auto simp: cmp)
    have c: "\<exists>e'. compareHands players = Inl e'" if "\<exists>q\<in>set players. hand q = None"
    proof (cases "compareHands players")
      case (Inl e')
      then show ?thesis by blast
    next
      case (Inr out)
      then obtain rs where "map_rankHand players = Inr rs" by (auto simp: cmp split: sum.splits)
      then have m: "map rankHand players = map Inr rs" by (simp add: map_rankHand_Inr)
      from that obtain q where q: "q \<in> set players" "hand q = None" by blast
      then have "rankHand q \<in> set (map rankHand players)" by simp
      with m have "\<exists>r. rankHand q = Inr r" by auto
      with q(2) rankHand_Inr_iff[of q] show ?thesis by simp
    qed
    from a b c show ?thesis by blast
  qed
  from one two show ?thesis by blast
qed

theorem rankHand_error_iff_witness:
  "(rankHand (seat 1 None) = Inl (InternalServerErrorException ''Attempting to rank a non-existant hand!''))
   \<and> (\<exists>e'. compareHands [seat 1 None, seat 2 (Some hand2)] = Inl e')
   \<and> (\<exists>rs. compareHands [seat 1 (Some hand1), seat 2 (Some hand2)] = Inr rs)"
proof -
  have a: "2 \<le> length [seat 1 None, seat 2 (Some hand2)]" by simp
  have b: "2 \<le> length [seat 1 (Some hand1), seat 2 (Some hand2)]" by simp
  have "rankHand (seat 1 None) = Inl (InternalServerErrorException ''Attempting to rank a non-existant hand!'')"
    using rankHand_error_iff[of "seat 1 None" "InternalServerErrorException ''Attempting to rank a non-existant hand!''" "[]"]
    by (simp add: seat_def)
  moreover have "\<exists>e'. compareHands [seat 1 None, seat 2 (Some hand2)] = Inl e'"
    using rankHand_error_iff[of "seat 1 None" TypeError "[seat 1 None, seat 2 (Some hand2)]"] a
    by (simp add: seat_def)
  moreover have "\<exists>rs. compareHands [seat 1 (Some hand1), seat 2 (Some hand2)] = Inr rs"
    using rankHand_error_iff[of "seat 1 None" TypeError "[seat 1 (Some hand1), seat 2 (Some hand2)]"] b
    by (simp add: seat_def)
  ultimately show ?thesis by blast
qed

text \<open>
  Claim C1. On two or more players whose hands are all present, \<open>compareHands\<close> returns a
  list \<open>out\<close> with one entry per input player: \<open>rs\<close> holds the result of \<open>rankHand\<close> for each
  player in input order, and \<open>out\<close> is a permutation of \<open>rs\<close>. The scores of \<open>out\<close> descend
  (no entry is followed by one of greater score), and for every score the entries
  with exactly that score stand in \<open>out\<close> in the order they have in the input.
\<close>

theorem compareHands_sorted_stable:
  assumes "2 \<le> length players" and "\<forall>q\<in>set players. hand q \<noteq> None"
  shows "\<exists>rs out. map rankHand players = map Inr rs
           \<and> map player rs = players
           \<and> compareHands players = Inr out
           \<and> length out = length players
           \<and> mset out = mset rs
           \<and> sorted_wrt (\<lambda>a b. js_less_eq (score b) (score a)) out
           \<and> (\<forall>s. filter (\<lambda>r. score r = s) out = filter (\<lambda>r. score r = s) rs)"
proof -
  let ?cmp = "\<lambda>handA handB :: 'a RankHandReponse. js_sub (score handB) (score handA)"
  from map_rankHand_total[OF assms(2)] obtain rs where rs: "map_rankHand players = Inr rs" by blast
  then have m: "map rankHand players = map Inr rs" by (simp add: map_rankHand_Inr)
  then have len: "length rs = length players" by (metis length_map)
  have nth: "rankHand (players ! i) = Inr (rs ! i)" if "i < length players" for i
    using m that len by (metis nth_map)
  have pl: "map player rs = players"
  proof (rule nth_equalityI)
    show "length (map player rs) = length players" using len by simp
  next
    fix i assume "i < length (map player rs)"
    then have i: "i < length players" using len by simp
    from rankHand_Inr_result[OF nth[OF i]] i len show "map player rs ! i = players ! i" by simp
  qed
  have ord: "\<forall>z\<in>set rs. score z = NegInfinity \<or> (\<exists>n. score z = Fin n)"
  proof
    fix z assume "z \<in> set rs"
    then obtain i where i: "i < length rs" "rs ! i = z" by (auto simp: in_set_conv_nth)
    with nth[of i] len rankHand_Inr_result[of "players ! i" z] show "score z = NegInfinity \<or> (\<exists>n. score z = Fin n)"
      by simp
  qed
  have out: "compareHands players = Inr (js_sort ?cmp rs)"
    using assms(1) rs by (simp add: compareHands_def)
  have l: "length (js_sort ?cmp rs) = length players"
    using mset_js_sort[of ?cmp rs] len by (metis size_mset)
  from m pl out l mset_js_sort[of ?cmp rs] sorted_js_sort[OF ord] stable_js_sort[OF ord]
  show ?thesis by blast
qed

theorem compareHands_sorted_stable_witness:
  "compareHands [seat 1 (Some hand1), seat 2 (Some hand2), seat 3 (Some hand1)] =
     Inr [\<lparr>player = seat 2 (Some hand2), category = Some pair, score = Fin 219\<rparr>,
          \<lparr>player = seat 1 (Some hand1), category = Some pair, score = Fin 217\<rparr>,
          \<lparr>player = seat 3 (Some hand1), category = Some pair, score = Fin 217\<rparr>]
   \<and> (\<exists>rs out. map rankHand [seat 1 (Some hand1), seat 2 (Some hand2), seat 3 (Some hand1)] = map Inr rs
     \<and> map player rs = [seat 1 (Some hand1), seat 2 (Some hand2), seat 3 (Some hand1)]
     \<and> compareHands [seat 1 (Some hand1), seat 2 (Some hand2), seat 3 (Some hand1)] = Inr out
     \<and> length out = length [seat 1 (Some hand1), seat 2 (Some hand2), seat 3 (Some hand1)]
     \<and> mset out = mset rs
     \<and> sorted_wrt (\<lambda>a b. js_less_eq (score b) (score a)) out
     \<and> (\<forall>s. filter (\<lambda>r. score r = s) out = filter (\<lambda>r. score r = s) rs))"
proof -
  have a: "2 \<le> length [seat 1 (Some hand1), seat 2 (Some hand2), seat 3 (Some hand1)]" by simp
  have b: "\<forall>q\<in>set [seat 1 (Some hand1), seat 2 (Some hand2), seat 3 (Some hand1)]. hand q \<noteq> None"
    by (simp add: seat_def)
  from example_round compareHands_sorted_stable[OF a b] show ?thesis by (rule conjI)
qed

section \<open>Hands of five cards\<close>

text \<open>
  Claim C4. A hand of five cards in which a rank \<open>r\<close> occurs exactly four times is ranked
  "four of a kind" with score \<open>800 + 4 * r\<close>. The full-house flag of such a hand is true
  as well (two distinct ranks occur); the earlier key of the priority order wins.
\<close>

theorem four_of_a_kind_score:
  assumes "hand p = Some h" and "length h = 5" and "count_list (map rank h) r = 4"
  shows "rankHand p = Inr \<lparr>player = p, category = Some four_of_a_kind,
                           score = Fin (800 + 4 * rank_value r)\<rparr>
         \<and> categoryMap (fst (tally h)) (snd (tally h)) full_house"
proof -
  let ?cnt = "count_list (map rank h)"
  let ?m = "categoryMap (count_list (map suit h)) ?cnt"
  note q = quad_facts(1)[OF assms(2,3)] quad_facts(2)[OF assms(2,3), of "count_list (map suit h)"]
    quad_facts(3)[OF assms(2,3), of "count_list (map suit h)"]
  have four: "?m four_of_a_kind" by (simp add: cm_four q(1))
  have "\<not> ?m royal_flush" "\<not> ?m straight_flush"
    using q(2) by (simp_all add: cm_royal_flush cm_straight_flush)
  with four have sel: "select_category ?m = (Fin 800, Some four_of_a_kind)"
    by (simp add: select_category_if)
  have ne: "keys_with ?cnt 4 \<noteq> []" using q(1) by simp
  show ?thesis
    unfolding rankHand_four[OF assms(1) sel ne] using q(1) q(3) by (simp add: tally_count)
qed

theorem four_of_a_kind_score_witness:
  "rankHand (seat 1 (Some quad_hand)) =
     Inr \<lparr>player = seat 1 (Some quad_hand), category = Some four_of_a_kind, score = Fin 812\<rparr>
   \<and> categoryMap (fst (tally quad_hand)) (snd (tally quad_hand)) full_house"
proof -
  have a: "hand (seat 1 (Some quad_hand)) = Some quad_hand" by (simp add: seat_def)
  have b: "length quad_hand = 5" by (simp add: quad_hand_def)
  have c: "count_list (map rank quad_hand) R3 = 4" by (simp add: quad_hand_def)
  show ?thesis using four_of_a_kind_score[OF a b c] by simp
qed

text \<open>
  Claim C5. A hand whose cards share one suit and whose ranks are exactly 10, 11, 12, 13
  and 14 is ranked "royal flush" with score \<open>1000 + (10 + 11 + 12 + 13 + 14) = 1060\<close>.
\<close>

theorem royal_flush_score:
  assumes "hand p = Some h"
    and "mset (map rank h) = mset [R10, R11, R12, R13, R14]"
    and "\<forall>c\<in>set h. suit c = s"
  shows "rankHand p = Inr \<lparr>player = p, category = Some royal_flush, score = Fin 1060\<rparr>"
  using assms by (rule royal_result)

theorem royal_flush_score_witness:
  "rankHand (seat 1 (Some royal_hand)) =
     Inr \<lparr>player = seat 1 (Some royal_hand), category = Some royal_flush, score = Fin 1060\<rparr>"
proof -
  have a: "hand (seat 1 (Some royal_hand)) = Some royal_hand" by (simp add: seat_def)
  have b: "mset (map rank royal_hand) = mset [R10, R11, R12, R13, R14]" by (simp add: royal_hand_def)
  have c: "\<forall>c\<in>set royal_hand. suit c = hearts" by (simp add: royal_hand_def)
  show ?thesis by (rule royal_flush_score[OF a b c])
qed

text \<open>
  Claim C7. The straight flag of the source equals the rule of the specification
  (\<open>straight_spec\<close>: the lowest rank with count 1 is the anchor, and the five ranks from
  the anchor on each have count 1), for the tally of every hand. A hand with the ranks
  14, 2, 3, 4, 5 has the flag false, and is ranked neither "straight" nor "straight
  flush" nor "royal flush".
\<close>

theorem straight_flag_spec:
  "categoryMap (fst (tally h)) (snd (tally h)) straight = straight_spec (snd (tally h))
   \<and> (mset (map rank w) = mset [R14, R2, R3, R4, R5] \<longrightarrow>
        \<not> categoryMap (fst (tally w)) (snd (tally w)) straight
        \<and> (\<forall>(p::'p PlayerWithHand) r. hand p = Some w \<and> rankHand p = Inr r \<longrightarrow>
              category r \<noteq> Some straight \<and> category r \<noteq> Some straight_flush
              \<and> category r \<noteq> Some royal_flush))"
proof -
  have one: "categoryMap (fst (tally h)) (snd (tally h)) straight = straight_spec (snd (tally h))"
    unfolding straight_flag_iff straight_spec_iff ..
  have two: "\<not> categoryMap (fst (tally w)) (snd (tally w)) straight
        \<and> (\<forall>(p::'p PlayerWithHand) r. hand p = Some w \<and> rankHand p = Inr r \<longrightarrow>
              category r \<noteq> Some straight \<and> category r \<noteq> Some straight_flush
              \<and> category r \<noteq> Some royal_flush)"
    if w: "mset (map rank w) = mset [R14, R2, R3, R4, R5]"
  proof -
    let ?cnt = "count_list (map rank w)"
    let ?m = "categoryMap (count_list (map suit w)) ?cnt"
    have cnt: "?cnt k = count (mset [R14, R2, R3, R4, R5]) k" for k
      using w by (metis count_mset)
    have vals: "map ?cnt rank_keys = [1, 1, 1, 1, 0, 0, 0, 0, 0, 0, 0, 0, 1]"
      by (simp add: rank_keys_def cnt)
    have f: "firstCardIndex ?cnt = 0"
      unfolding firstCardIndex_def vals by simp
    have st: "\<not> ?m straight"
      unfolding cm_straight f vals by (simp add: slice_def)
    then have sf: "\<not> ?m straight_flush" and rf: "\<not> ?m royal_flush"
      by (simp_all add: cm_royal_flush cm_straight_flush)
    have "category r \<noteq> Some straight \<and> category r \<noteq> Some straight_flush
              \<and> category r \<noteq> Some royal_flush"
      if "hand p = Some w" "rankHand p = Inr r" for p :: "'p PlayerWithHand" and r
    proof -
      from category_flag[OF that] obtain j where
        j: "category r = Some (priority_order ! j)" "?m (priority_order ! j)" by blast
      with st sf rf show ?thesis by auto
    qed
    with st show ?thesis unfolding tally_count fst_conv snd_conv by blast
  qed
  from one two show ?thesis by blast
qed

theorem straight_flag_spec_witness:
  "\<not> categoryMap (fst (tally wheel_hand)) (snd (tally wheel_hand)) straight
   \<and> \<not> straight_spec (snd (tally wheel_hand))
   \<and> (\<exists>r. rankHand (seat 1 (Some wheel_hand)) = Inr r
          \<and> category r \<noteq> Some straight \<and> category r \<noteq> Some straight_flush
          \<and> category r \<noteq> Some royal_flush)"
proof -
  have a: "mset (map rank wheel_hand) = mset [R14, R2, R3, R4, R5]" by (simp add: wheel_hand_def)
  have b: "hand (seat 1 (Some wheel_hand)) = Some wheel_hand" by (simp add: seat_def)
  then obtain r where r: "rankHand (seat 1 (Some wheel_hand)) = Inr r"
    using rankHand_Inr_iff[of "seat 1 (Some wheel_hand)"] by auto
  show ?thesis
    using straight_flag_spec[of wheel_hand wheel_hand, where ?'p = nat] a b r by blast
qed

text \<open>
  Claim C6. When a hand of five cards is ranked "pair", exactly one rank \<open>k\<close> occurs
  twice, some rank occurs once, and the score is \<open>200 + 2 * k\<close> plus the greatest rank
  that occurs exactly once. The two hands of the worked example score 217 and 219.
\<close>

theorem pair_score:
  "(\<forall>(p::'p PlayerWithHand) h r.
       hand p = Some h \<and> length h = 5 \<and> rankHand p = Inr r \<and> category r = Some pair \<longrightarrow>
       (\<exists>k. count_list (map rank h) k = 2
          \<and> (\<forall>k'. count_list (map rank h) k' = 2 \<longrightarrow> k' = k)
          \<and> (\<exists>q. count_list (map rank h) q = 1)
          \<and> score r = Fin (200 + 2 * rank_value k
                              + Max (rank_value ` {q. count_list (map rank h) q = 1}))))
   \<and> rankHand (seat n (Some hand1)) =
        Inr \<lparr>player = seat n (Some hand1), category = Some pair, score = Fin 217\<rparr>
   \<and> rankHand (seat n (Some hand2)) =
        Inr \<lparr>player = seat n (Some hand2), category = Some pair, score = Fin 219\<rparr>"
  using pair_result hand1_result hand2_result by blast

theorem pair_score_witness:
  "\<exists>k. count_list (map rank hand1) k = 2
      \<and> (\<forall>k'. count_list (map rank hand1) k' = 2 \<longrightarrow> k' = k)
      \<and> (\<exists>q. count_list (map rank hand1) q = 1)
      \<and> Fin 217 = Fin (200 + 2 * rank_value k
                          + Max (rank_value ` {q. count_list (map rank hand1) q = 1}))"
proof -
  let ?r = "\<lparr>player = seat 1 (Some hand1), category = Some pair, score = Fin 217\<rparr>"
  have a: "hand (seat 1 (Some hand1)) = Some hand1" by (simp add: seat_def)
  have b: "length hand1 = 5" by (simp add: hand1_def)
  have c: "rankHand (seat 1 (Some hand1)) = Inr ?r"
    using pair_score[of 1, where ?'p = nat] by blast
  have d: "category ?r = Some pair" by simp
  have "\<exists>k. count_list (map rank hand1) k = 2
      \<and> (\<forall>k'. count_list (map rank hand1) k' = 2 \<longrightarrow> k' = k)
      \<and> (\<exists>q. count_list (map rank hand1) q = 1)
      \<and> score ?r = Fin (200 + 2 * rank_value k
                          + Max (rank_value ` {q. count_list (map rank hand1) q = 1}))"
    using pair_score[of 1, where ?'p = nat] a b c d by blast
  then show ?thesis by simp
qed

text \<open>
  Claim C9. The score of every hand of five cards is at most 1060 and below the 10000
  of a win via fold, so it is below the score of the entry \<open>compareHands\<close> returns for a
  single player; 1060 is the score of a royal flush.
\<close>

theorem score_below_fold:
  "(\<forall>(p::'p PlayerWithHand) h r.
       hand p = Some h \<and> length h = 5 \<and> rankHand p = Inr r \<longrightarrow>
       js_less_eq (score r) (Fin 1060) \<and> js_less (score r) (Fin 10000)
       \<and> (\<forall>(q::'p PlayerWithHand) w. compareHands [q] = Inr [w] \<longrightarrow> js_less (score r) (score w)))
   \<and> rankHand (seat n (Some royal_hand)) =
        Inr \<lparr>player = seat n (Some royal_hand), category = Some royal_flush, score = Fin 1060\<rparr>"
proof -
  have "js_less_eq (score r) (Fin 1060) \<and> js_less (score r) (Fin 10000)
       \<and> (\<forall>(q::'p PlayerWithHand) w. compareHands [q] = Inr [w] \<longrightarrow> js_less (score r) (score w))"
    if "hand p = Some h" "length h = 5" "rankHand p = Inr r"
    for p :: "'p PlayerWithHand" and h r
  proof -
    from score_le_1060[OF that]
    have b: "js_less_eq (score r) (Fin 1060) \<and> js_less (score r) (Fin 10000)" by auto
    have "js_less (score r) (score w)" if "compareHands [q] = Inr [w]"
      for q :: "'p PlayerWithHand" and w
    proof -
      from that have "score w = Fin 10000" by (auto simp: compareHands_def)
      with b show ?thesis by simp
    qed
    with b show ?thesis by blast
  qed
  with royal_hand_result[of n] show ?thesis by blast
qed

theorem score_below_fold_witness:
  "js_less_eq (score \<lparr>player = seat 1 (Some hand1), category = Some pair, score = Fin 217\<rparr>) (Fin 1060)
   \<and> js_less (score \<lparr>player = seat 1 (Some hand1), category = Some pair, score = Fin 217\<rparr>) (Fin 10000)"
proof -
  let ?r = "\<lparr>player = seat 1 (Some hand1), category = Some pair, score = Fin 217\<rparr>"
  have a: "hand (seat 1 (Some hand1)) = Some hand1" by (simp add: seat_def)
  have b: "length hand1 = 5" by (simp add: hand1_def)
  have c: "rankHand (seat 1 (Some hand1)) = Inr ?r" by (rule hand1_result)
  show ?thesis using score_below_fold[of 1, where ?'p = nat] a b c by blast
qed

text \<open>
  Claim C10. For a hand of five cards, distinct as the cards dealt from one deck are,
  that is ranked "two pairs", "pair" or "high card", some rank has tally count exactly
  1, so the kicker is the maximum of a non-empty array; and when the category is "pair"
  exactly one rank has tally count 2, so the \<open>reduce\<close> has an element to start from.
\<close>

theorem kicker_well_defined:
  assumes "hand p = Some h" and "length h = 5" and "distinct h" and "rankHand p = Inr r"
    and "category r = Some two_pairs \<or> category r = Some pair \<or> category r = Some high_card"
  shows "(\<exists>q. snd (tally h) q = 1)
         \<and> keys_with (snd (tally h)) 1 \<noteq> []
         \<and> (category r = Some pair \<longrightarrow>
              (\<exists>k. snd (tally h) k = 2 \<and> (\<forall>k'. snd (tally h) k' = 2 \<longrightarrow> k' = k))
              \<and> reduce_concat (map rank_key (keys_with (snd (tally h)) 2)) \<noteq> None)"
proof -
  let ?cnt = "count_list (map rank h)"
  have t: "snd (tally h) = ?cnt" by (simp add: tally_count)
  have five: "\<forall>k. ?cnt k \<noteq> 5"
  proof
    fix k
    from distinct_rank_count[OF assms(3), of k] show "?cnt k \<noteq> 5" by simp
  qed
  have cat: "category r = Some two_pairs \<or> category r = Some pair
              \<or> (category r = Some high_card \<and> (\<forall>k. ?cnt k \<noteq> 5))"
    using assms(5) five by blast
  from kicker_defined[OF assms(1,2,4) cat]
  have single: "\<exists>q. ?cnt q = 1"
    and pr: "category r = Some pair \<longrightarrow> (\<exists>k. keys_with ?cnt 2 = [k])" by simp_all
  have ne: "keys_with ?cnt 1 \<noteq> []" using single by (simp add: keys_with_nonempty)
  have "(\<exists>k. ?cnt k = 2 \<and> (\<forall>k'. ?cnt k' = 2 \<longrightarrow> k' = k))
        \<and> reduce_concat (map rank_key (keys_with ?cnt 2)) \<noteq> None"
    if "category r = Some pair"
  proof -
    from pr that obtain k where k: "keys_with ?cnt 2 = [k]" by blast
    then have "set (keys_with ?cnt 2) = {k}" by simp
    then have "{q. ?cnt q = 2} = {k}" by (simp add: set_keys_with)
    then have "?cnt k = 2 \<and> (\<forall>k'. ?cnt k' = 2 \<longrightarrow> k' = k)" by auto
    moreover have "reduce_concat (map rank_key (keys_with ?cnt 2)) \<noteq> None"
      unfolding k by (simp add: reduce_concat_def)
    ultimately show ?thesis by blast
  qed
  with single ne show ?thesis unfolding t by blast
qed

theorem kicker_well_defined_witness:
  "(\<exists>q. snd (tally hand1) q = 1)
   \<and> keys_with (snd (tally hand1)) 1 \<noteq> []
   \<and> (\<exists>k. snd (tally hand1) k = 2 \<and> (\<forall>k'. snd (tally hand1) k' = 2 \<longrightarrow> k' = k))
   \<and> reduce_concat (map rank_key (keys_with (snd (tally hand1)) 2)) \<noteq> None"
proof -
  let ?r = "\<lparr>player = seat 1 (Some hand1), category = Some pair, score = Fin 217\<rparr>"
  have a: "hand (seat 1 (Some hand1)) = Some hand1" by (simp add: seat_def)
  have b: "length hand1 = 5" by (simp add: hand1_def)
  have c: "distinct hand1" by (simp add: hand1_def)
  have d: "rankHand (seat 1 (Some hand1)) = Inr ?r" by (rule hand1_result)
  have e: "category ?r = Some two_pairs \<or> category ?r = Some pair \<or> category ?r = Some high_card"
    by simp
  have f: "category ?r = Some pair" by simp
  from kicker_well_defined[OF a b c d e] f show ?thesis by blast
qed

end
